theory Spec2Isabelle
  imports Main "HOL-Library.Word" "HOL-Library.Multiset"
begin

unbundle bit_operations_syntax

section \<open>Machine model\<close>

text \<open>
  The four allocators of the repository (\<^verbatim>\<open>arena.h\<close>, \<^verbatim>\<open>stack.h\<close>, \<^verbatim>\<open>pool.h\<close>,
  \<^verbatim>\<open>slab.h\<close>) are embedded for an LP64 target in their default build: none of
  \<^verbatim>\<open>ARENA_DEBUG\<close>, \<^verbatim>\<open>ARENA_BLOCK_CHAINING\<close>, \<^verbatim>\<open>STACK_DEBUG\<close>, \<^verbatim>\<open>POOL_DEBUG\<close>,
  \<^verbatim>\<open>POOL_ZERO_ON_ALLOC\<close>, \<^verbatim>\<open>POOL_ZERO_ON_FREE\<close>, \<^verbatim>\<open>SLAB_DEBUG\<close> is defined, and the
  assertion macros are the standard \<^verbatim>\<open>assert\<close>, which aborts.

  \<^item> \<^verbatim>\<open>size_t\<close>, \<^verbatim>\<open>uintptr_t\<close> and every pointer are 64-bit words; pointer arithmetic
    on \<^verbatim>\<open>uint8_t *\<close> is word arithmetic and wraps.
  \<^item> A descriptor (\<^verbatim>\<open>arena_t\<close>, \<^verbatim>\<open>stack_t\<close>, \<^verbatim>\<open>pool_t\<close>, \<^verbatim>\<open>slab_t\<close>) is a record that the
    function takes and returns; the descriptor pointer itself is taken to be non-null.
  \<^item> The managed bytes are an explicit store. The only data the allocators keep in the
    managed region are pointer-sized words (the stack's header, the free-list links), all
    written at addresses that are multiples of the word size, so the store maps the address
    of a word to the word held there.
  \<^item> A failed assertion is the result \<open>None\<close>.
\<close>

type_synonym size_t = "64 word"
type_synonym ptr = "64 word"
type_synonym mem = "ptr \<Rightarrow> 64 word"

definition NULL :: ptr where
  "NULL = 0"

text \<open>\<^verbatim>\<open>sizeof(void *)\<close> and \<^verbatim>\<open>sizeof(size_t)\<close>.\<close>

definition SIZEOF_PTR :: size_t where
  "SIZEOF_PTR = 8"

text \<open>The bytes \<open>[p, p + n)\<close> of an allocation, as a set of addresses.\<close>

definition byte_range :: "ptr \<Rightarrow> size_t \<Rightarrow> ptr set" where
  "byte_range p n = {a. \<exists>i < unat n. a = p + of_nat i}"

section \<open>Arena (\<^verbatim>\<open>arena.h\<close>)\<close>

record arena_t =
  buffer :: ptr
  capacity :: size_t
  offset :: size_t
  initialized :: bool

record arena_stats_t =
  capacity :: size_t
  used :: size_t
  remaining :: size_t
  alloc_count :: size_t
  total_requested :: size_t
  peak_usage :: size_t
  wasted_alignment :: size_t

text \<open>\<^verbatim>\<open>ARENA_DEFAULT_ALIGN\<close> is \<^verbatim>\<open>sizeof(max_align_t)\<close>, 32 on x86-64 with GCC or Clang.\<close>

definition ARENA_DEFAULT_ALIGN :: size_t where
  "ARENA_DEFAULT_ALIGN = 32"

definition arena__is_power_of_two :: "size_t \<Rightarrow> bool" where
  "arena__is_power_of_two x \<longleftrightarrow> x \<noteq> 0 \<and> (x AND (x - 1)) = 0"

definition arena__align_up :: "size_t \<Rightarrow> size_t \<Rightarrow> size_t" where
  "arena__align_up v align = (v + align - 1) AND NOT (align - 1)"

text \<open>The result is \<open>None\<close> for \<^verbatim>\<open>false\<close>, and the two out-parameters for \<^verbatim>\<open>true\<close>.\<close>

definition arena__calc_aligned_offset ::
  "size_t \<Rightarrow> size_t \<Rightarrow> size_t \<Rightarrow> size_t \<Rightarrow> (size_t \<times> size_t) option" where
  "arena__calc_aligned_offset current_offset align sz cap =
     (let aligned = arena__align_up current_offset align in
      if aligned < current_offset then None
      else let padding = aligned - current_offset in
        if aligned > cap then None
        else if sz > cap - aligned then None
        else Some (aligned, padding))"

text \<open>
  \<^verbatim>\<open>arena_init\<close> returns \<^verbatim>\<open>false\<close> for a null buffer of non-zero size and leaves the
  descriptor alone; otherwise the descriptor is zeroed and filled in.
\<close>

definition arena_init :: "arena_t \<Rightarrow> ptr \<Rightarrow> size_t \<Rightarrow> bool \<times> arena_t" where
  "arena_init arena buf sz =
     (if buf = NULL \<and> sz > 0 then (False, arena)
      else (True, \<lparr>arena_t.buffer = buf, arena_t.capacity = sz, arena_t.offset = 0,
                   arena_t.initialized = True\<rparr>))"

definition arena__alloc :: "arena_t \<Rightarrow> size_t \<Rightarrow> size_t \<Rightarrow> (ptr \<times> arena_t) option" where
  "arena__alloc arena sz align =
     (if \<not> arena_t.initialized arena then None
      else if \<not> arena__is_power_of_two align then None
      else if sz = 0 then Some (arena_t.buffer arena + arena_t.offset arena, arena)
      else (case arena__calc_aligned_offset (arena_t.offset arena) align sz
                   (arena_t.capacity arena) of
              None \<Rightarrow> Some (NULL, arena)
            | Some (aligned_offset, padding) \<Rightarrow>
                Some (arena_t.buffer arena + aligned_offset,
                      arena\<lparr>arena_t.offset := aligned_offset + sz\<rparr>)))"

definition arena_alloc :: "arena_t \<Rightarrow> size_t \<Rightarrow> (ptr \<times> arena_t) option" where
  "arena_alloc arena sz = arena__alloc arena sz ARENA_DEFAULT_ALIGN"

definition arena_alloc_aligned :: "arena_t \<Rightarrow> size_t \<Rightarrow> size_t \<Rightarrow> (ptr \<times> arena_t) option" where
  "arena_alloc_aligned arena sz align = arena__alloc arena sz align"

definition arena_remaining :: "arena_t \<Rightarrow> size_t" where
  "arena_remaining arena =
     (if \<not> arena_t.initialized arena then 0
      else if arena_t.offset arena > arena_t.capacity arena then 0
      else arena_t.capacity arena - arena_t.offset arena)"

definition arena_used :: "arena_t \<Rightarrow> size_t" where
  "arena_used arena = (if \<not> arena_t.initialized arena then 0 else arena_t.offset arena)"

definition arena_stats :: "arena_t \<Rightarrow> arena_stats_t" where
  "arena_stats arena =
     (if \<not> arena_t.initialized arena
      then \<lparr>arena_stats_t.capacity = 0, used = 0, remaining = 0, alloc_count = 0,
            total_requested = 0, peak_usage = 0, wasted_alignment = 0\<rparr>
      else \<lparr>arena_stats_t.capacity = arena_t.capacity arena, used = arena_t.offset arena,
            remaining = arena_remaining arena, alloc_count = 0,
            total_requested = 0, peak_usage = 0, wasted_alignment = 0\<rparr>)"

section \<open>Stack (\<^verbatim>\<open>stack.h\<close>)\<close>

record stack_t =
  buffer :: ptr
  capacity :: size_t
  offset :: size_t

record stack_stats_t =
  capacity :: size_t
  used :: size_t
  remaining :: size_t

definition STACK_MIN_ALIGNMENT :: size_t where
  "STACK_MIN_ALIGNMENT = 8"

definition STACK_HEADER_SIZE :: size_t where
  "STACK_HEADER_SIZE = 8"

definition stack__is_power_of_two :: "size_t \<Rightarrow> bool" where
  "stack__is_power_of_two n \<longleftrightarrow> n \<noteq> 0 \<and> (n AND (n - 1)) = 0"

definition stack__get_header :: "ptr \<Rightarrow> ptr" where
  "stack__get_header p = p - STACK_HEADER_SIZE"

text \<open>\<^verbatim>\<open>stack_init\<close> returns \<open>-1\<close> and leaves the descriptor alone on a null buffer or size 0.\<close>

definition stack_init :: "stack_t \<Rightarrow> ptr \<Rightarrow> size_t \<Rightarrow> int \<times> stack_t" where
  "stack_init stack buf sz =
     (if buf = NULL \<or> sz = 0 then (-1, stack)
      else (0, \<lparr>stack_t.buffer = buf, stack_t.capacity = sz, stack_t.offset = 0\<rparr>))"

definition stack_alloc_aligned ::
  "stack_t \<Rightarrow> mem \<Rightarrow> size_t \<Rightarrow> size_t \<Rightarrow> (ptr \<times> stack_t \<times> mem) option" where
  "stack_alloc_aligned stack m sz alignment0 =
     (if stack_t.buffer stack = NULL then None
      else if sz = 0 then Some (NULL, stack, m)
      else
        let alignment = (if alignment0 < STACK_MIN_ALIGNMENT then STACK_MIN_ALIGNMENT
                         else alignment0)
        in
        if \<not> stack__is_power_of_two alignment then None
        else
          let prev_offset = stack_t.offset stack;
              user_addr_unaligned = stack_t.buffer stack + prev_offset + STACK_HEADER_SIZE;
              user_addr_aligned = (user_addr_unaligned + alignment - 1) AND NOT (alignment - 1);
              user_offset = user_addr_aligned - stack_t.buffer stack;
              end_offset = user_offset + sz
          in
          if end_offset < user_offset \<or> end_offset > stack_t.capacity stack
          then Some (NULL, stack, m)
          else
            let user_ptr = stack_t.buffer stack + user_offset in
            Some (user_ptr, stack\<lparr>stack_t.offset := end_offset\<rparr>,
                  m(stack__get_header user_ptr := prev_offset)))"

definition stack_alloc :: "stack_t \<Rightarrow> mem \<Rightarrow> size_t \<Rightarrow> (ptr \<times> stack_t \<times> mem) option" where
  "stack_alloc stack m sz = stack_alloc_aligned stack m sz STACK_MIN_ALIGNMENT"

definition stack_free :: "stack_t \<Rightarrow> mem \<Rightarrow> ptr \<Rightarrow> (stack_t \<times> mem) option" where
  "stack_free stack m p =
     (if p = NULL then Some (stack, m)
      else if \<not> (p \<ge> stack_t.buffer stack
                 \<and> p < stack_t.buffer stack + stack_t.capacity stack) then None
      else
        let prev_offset = m (stack__get_header p) in
        if \<not> prev_offset \<le> stack_t.offset stack then None
        else Some (stack\<lparr>stack_t.offset := prev_offset\<rparr>, m))"

definition stack_stats :: "stack_t \<Rightarrow> stack_stats_t" where
  "stack_stats stack =
     \<lparr>stack_stats_t.capacity = stack_t.capacity stack, used = stack_t.offset stack,
      remaining = stack_t.capacity stack - stack_t.offset stack\<rparr>"

section \<open>Pool (\<^verbatim>\<open>pool.h\<close>)\<close>

datatype pool_error =
    POOL_OK
  | POOL_ERR_NULL_POOL
  | POOL_ERR_NULL_BUFFER
  | POOL_ERR_BUFFER_TOO_SMALL
  | POOL_ERR_INVALID_SLOT_SIZE
  | POOL_ERR_INVALID_ALIGNMENT
  | POOL_ERR_NULL_PTR
  | POOL_ERR_INVALID_PTR
  | POOL_ERR_DOUBLE_FREE

record pool_t =
  buffer :: ptr
  buffer_end :: ptr
  free_list :: ptr
  slot_size :: size_t
  slot_count :: size_t
  free_count :: size_t

record pool_stats_t =
  slot_size :: size_t
  slot_count :: size_t
  free_count :: size_t
  used_count :: size_t

text \<open>\<^verbatim>\<open>POOL_ALIGN\<close> defaults to \<^verbatim>\<open>sizeof(void*)\<close>.\<close>

definition POOL_ALIGN :: size_t where
  "POOL_ALIGN = 8"

definition pool__align_up :: "size_t \<Rightarrow> size_t \<Rightarrow> size_t" where
  "pool__align_up v alignment = (v + alignment - 1) AND NOT (alignment - 1)"

definition pool__align_ptr :: "ptr \<Rightarrow> size_t \<Rightarrow> ptr" where
  "pool__align_ptr p alignment = (p + alignment - 1) AND NOT (alignment - 1)"

definition pool__slot_ptr :: "pool_t \<Rightarrow> size_t \<Rightarrow> ptr" where
  "pool__slot_ptr pool index = pool_t.buffer pool + index * pool_t.slot_size pool"

text \<open>
  The loop of \<^verbatim>\<open>pool__build_free_list\<close>, \<^verbatim>\<open>for (i = slot_count; i > 0; i--)\<close>: the
  counter is the first numeric argument, the list head built so far the second.
\<close>

fun pool__build_free_list_loop :: "pool_t \<Rightarrow> nat \<Rightarrow> ptr \<Rightarrow> mem \<Rightarrow> ptr \<times> mem" where
  "pool__build_free_list_loop pool 0 fl m = (fl, m)"
| "pool__build_free_list_loop pool (Suc i) fl m =
     (let slot = pool__slot_ptr pool (of_nat i)
      in pool__build_free_list_loop pool i slot (m(slot := fl)))"

definition pool__build_free_list :: "pool_t \<Rightarrow> mem \<Rightarrow> pool_t \<times> mem" where
  "pool__build_free_list pool m =
     (let (fl, m') = pool__build_free_list_loop pool (unat (pool_t.slot_count pool)) NULL m
      in (pool\<lparr>pool_t.free_list := fl, pool_t.free_count := pool_t.slot_count pool\<rparr>, m'))"

definition pool_zero :: pool_t where
  "pool_zero = \<lparr>pool_t.buffer = 0, buffer_end = 0, free_list = 0, pool_t.slot_size = 0,
                pool_t.slot_count = 0, pool_t.free_count = 0\<rparr>"

text \<open>
  \<^verbatim>\<open>pool_init\<close>. The division \<^verbatim>\<open>usable_size / effective_slot_size\<close> traps when the
  rounded slot size has wrapped to 0 (a \<^verbatim>\<open>slot_size\<close> above \<open>2\<^sup>6\<^sup>4 - 8\<close>); that is the
  result \<open>None\<close>.
\<close>

definition pool_init ::
  "pool_t \<Rightarrow> mem \<Rightarrow> ptr \<Rightarrow> size_t \<Rightarrow> size_t \<Rightarrow> (pool_error \<times> pool_t \<times> mem) option" where
  "pool_init pool m buf sz slot_sz =
     (if buf = NULL then Some (POOL_ERR_NULL_BUFFER, pool, m)
      else if slot_sz = 0 then Some (POOL_ERR_INVALID_SLOT_SIZE, pool, m)
      else if (POOL_ALIGN AND (POOL_ALIGN - 1)) \<noteq> 0
        then Some (POOL_ERR_INVALID_ALIGNMENT, pool, m)
      else
        let effective_slot_size =
              pool__align_up (if slot_sz < SIZEOF_PTR then SIZEOF_PTR else slot_sz) POOL_ALIGN;
            aligned_start = pool__align_ptr buf POOL_ALIGN;
            alignment_overhead = aligned_start - buf
        in
        if alignment_overhead \<ge> sz then Some (POOL_ERR_BUFFER_TOO_SMALL, pool_zero, m)
        else if effective_slot_size = 0 then None
        else
          let usable_size = sz - alignment_overhead;
              slot_cnt = usable_size div effective_slot_size
          in
          if slot_cnt = 0 then Some (POOL_ERR_BUFFER_TOO_SMALL, pool_zero, m)
          else
            let (pool', m') = pool__build_free_list
                  (pool_zero\<lparr>pool_t.buffer := aligned_start,
                             buffer_end := aligned_start + slot_cnt * effective_slot_size,
                             pool_t.slot_size := effective_slot_size,
                             pool_t.slot_count := slot_cnt\<rparr>) m
            in Some (POOL_OK, pool', m'))"

definition pool_alloc :: "pool_t \<Rightarrow> mem \<Rightarrow> ptr \<times> pool_t" where
  "pool_alloc pool m =
     (if pool_t.free_list pool = NULL then (NULL, pool)
      else
        let slot = pool_t.free_list pool in
        (slot, pool\<lparr>pool_t.free_list := m slot,
                    pool_t.free_count := pool_t.free_count pool - 1\<rparr>))"

text \<open>
  \<^verbatim>\<open>pool_owns\<close>. The remainder \<^verbatim>\<open>offset % slot_size\<close> is only reached for a pointer
  inside \<open>[buffer, buffer_end)\<close>, which is empty while \<^verbatim>\<open>slot_size\<close> is still 0.
\<close>

definition pool_owns :: "pool_t \<Rightarrow> ptr \<Rightarrow> bool" where
  "pool_owns pool p =
     (if p = NULL then False
      else if p < pool_t.buffer pool \<or> p \<ge> pool_t.buffer_end pool then False
      else
        let off = p - pool_t.buffer pool in
        if off mod pool_t.slot_size pool \<noteq> 0 then False else True)"

definition pool_free :: "pool_t \<Rightarrow> mem \<Rightarrow> ptr \<Rightarrow> pool_error \<times> pool_t \<times> mem" where
  "pool_free pool m p =
     (if p = NULL then (POOL_ERR_NULL_PTR, pool, m)
      else if \<not> pool_owns pool p then (POOL_ERR_INVALID_PTR, pool, m)
      else (POOL_OK,
            pool\<lparr>pool_t.free_list := p, pool_t.free_count := pool_t.free_count pool + 1\<rparr>,
            m(p := pool_t.free_list pool)))"

definition pool_used :: "pool_t \<Rightarrow> size_t" where
  "pool_used pool = pool_t.slot_count pool - pool_t.free_count pool"

definition pool_stats :: "pool_t \<Rightarrow> pool_stats_t" where
  "pool_stats pool =
     \<lparr>pool_stats_t.slot_size = pool_t.slot_size pool,
      pool_stats_t.slot_count = pool_t.slot_count pool,
      pool_stats_t.free_count = pool_t.free_count pool,
      used_count = pool_t.slot_count pool - pool_t.free_count pool\<rparr>"

section \<open>Slab (\<^verbatim>\<open>slab.h\<close>)\<close>

record slab_class_stats_t =
  slot_size :: size_t
  total_slots :: size_t
  used_slots :: size_t
  free_slots :: size_t
  peak_used :: size_t
  alloc_count :: size_t
  free_count :: size_t

record slab_class_t =
  slot_size :: size_t
  free_list :: ptr
  region_start :: ptr
  region_end :: ptr
  slot_count :: size_t
  free_count :: size_t

text \<open>The array \<^verbatim>\<open>classes[SLAB_MAX_CLASSES]\<close> is a list of 16 class descriptors.\<close>

record slab_t =
  buffer :: ptr
  aligned_start :: ptr
  capacity :: size_t
  usable_capacity :: size_t
  classes :: "slab_class_t list"
  class_count :: size_t
  initialized :: int

definition SLAB_MAX_CLASSES :: size_t where
  "SLAB_MAX_CLASSES = 16"

definition SLAB_ALIGNMENT :: size_t where
  "SLAB_ALIGNMENT = 8"

definition SLAB_OK :: int where "SLAB_OK = 0"
definition SLAB_ERR_NULL_PARAM :: int where "SLAB_ERR_NULL_PARAM = -1"
definition SLAB_ERR_ZERO_SIZE :: int where "SLAB_ERR_ZERO_SIZE = -2"
definition SLAB_ERR_TOO_MANY :: int where "SLAB_ERR_TOO_MANY = -3"
definition SLAB_ERR_BUFFER_SMALL :: int where "SLAB_ERR_BUFFER_SMALL = -4"
definition SLAB_ERR_INVALID_SIZE :: int where "SLAB_ERR_INVALID_SIZE = -5"
definition SLAB_ERR_ALREADY_INIT :: int where "SLAB_ERR_ALREADY_INIT = -6"

definition SLAB_ALIGN_UP :: "64 word \<Rightarrow> 64 word \<Rightarrow> 64 word" where
  "SLAB_ALIGN_UP x align = (x + (align - 1)) AND NOT (align - 1)"

definition SLAB_MAX :: "64 word \<Rightarrow> 64 word \<Rightarrow> 64 word" where
  "SLAB_MAX a b = (if a > b then a else b)"

definition SLAB_MIN_SLOT_SIZE :: size_t where
  "SLAB_MIN_SLOT_SIZE = SLAB_MAX SIZEOF_PTR SLAB_ALIGNMENT"

definition SLAB_MAGIC :: int where
  "SLAB_MAGIC = 0x534C4142"

text \<open>\<^verbatim>\<open>(size_t)-1\<close>, the "not found" index.\<close>

definition SLAB_NO_CLASS :: size_t where
  "SLAB_NO_CLASS = - 1"

text \<open>
  \<^verbatim>\<open>slab__sort_sizes\<close>, an insertion sort in place. The array is a list with at least
  \<open>count\<close> entries. The inner \<^verbatim>\<open>while\<close> loop returns the array and the final \<open>j\<close>; the
  outer \<^verbatim>\<open>for\<close> loop runs over \<open>i = 1, \<dots>, count - 1\<close>.
\<close>

fun slab__sort_shift :: "size_t list \<Rightarrow> size_t \<Rightarrow> nat \<Rightarrow> size_t list \<times> nat" where
  "slab__sort_shift arr key 0 = (arr, 0)"
| "slab__sort_shift arr key (Suc j) =
     (if arr ! j > key then slab__sort_shift (arr[Suc j := arr ! j]) key j
      else (arr, Suc j))"

definition slab__sort_step :: "nat \<Rightarrow> size_t list \<Rightarrow> size_t list" where
  "slab__sort_step i arr =
     (let key = arr ! i; (arr', j) = slab__sort_shift arr key i in arr'[j := key])"

definition slab__sort_sizes :: "size_t list \<Rightarrow> nat \<Rightarrow> size_t list" where
  "slab__sort_sizes arr cnt = fold slab__sort_step [1..<cnt] arr"

definition slab__find_class_for_size :: "slab_t \<Rightarrow> size_t \<Rightarrow> size_t" where
  "slab__find_class_for_size slab sz =
     (case find (\<lambda>i. slab_class_t.slot_size (classes slab ! i) \<ge> sz)
             [0..<unat (slab_t.class_count slab)] of
        Some i \<Rightarrow> of_nat i
      | None \<Rightarrow> SLAB_NO_CLASS)"

definition slab__find_class_for_ptr :: "slab_t \<Rightarrow> ptr \<Rightarrow> size_t" where
  "slab__find_class_for_ptr slab p =
     (case find (\<lambda>i. p \<ge> region_start (classes slab ! i) \<and> p < region_end (classes slab ! i))
             [0..<unat (slab_t.class_count slab)] of
        Some i \<Rightarrow> of_nat i
      | None \<Rightarrow> SLAB_NO_CLASS)"

definition slab__validate_ptr_in_class :: "slab_class_t \<Rightarrow> ptr \<Rightarrow> bool" where
  "slab__validate_ptr_in_class cls p =
     (if p < region_start cls \<or> p \<ge> region_end cls then False
      else
        let off = p - region_start cls in
        if off mod slab_class_t.slot_size cls \<noteq> 0 then False else True)"

fun slab__build_free_list_loop :: "slab_class_t \<Rightarrow> nat \<Rightarrow> ptr \<Rightarrow> mem \<Rightarrow> ptr \<times> mem" where
  "slab__build_free_list_loop cls 0 prev m = (prev, m)"
| "slab__build_free_list_loop cls (Suc i) prev m =
     (let slot = region_start cls + of_nat i * slab_class_t.slot_size cls
      in slab__build_free_list_loop cls i slot (m(slot := prev)))"

definition slab__build_free_list :: "slab_class_t \<Rightarrow> mem \<Rightarrow> slab_class_t \<times> mem" where
  "slab__build_free_list cls m =
     (let cls0 = cls\<lparr>slab_class_t.free_list := NULL,
                     slab_class_t.free_count := slab_class_t.slot_count cls\<rparr>
      in
      if slab_class_t.slot_count cls = 0 then (cls0, m)
      else
        let (prev, m') =
              slab__build_free_list_loop cls0 (unat (slab_class_t.slot_count cls)) NULL m
        in (cls0\<lparr>slab_class_t.free_list := prev\<rparr>, m'))"

definition slab_class_zero :: slab_class_t where
  "slab_class_zero = \<lparr>slab_class_t.slot_size = 0, slab_class_t.free_list = 0, region_start = 0,
                      region_end = 0, slab_class_t.slot_count = 0, slab_class_t.free_count = 0\<rparr>"

definition slab_zero :: slab_t where
  "slab_zero = \<lparr>slab_t.buffer = 0, aligned_start = 0, slab_t.capacity = 0,
                slab_t.usable_capacity = 0, classes = replicate 16 slab_class_zero,
                slab_t.class_count = 0, slab_t.initialized = 0\<rparr>"

text \<open>
  The class loop of \<^verbatim>\<open>slab_init\<close> over the sorted sizes: it returns whether every class got
  at least one slot, the classes filled in so far, and the store. The third argument is
  \<^verbatim>\<open>region_ptr\<close>.
\<close>

fun slab__init_classes ::
  "size_t list \<Rightarrow> size_t \<Rightarrow> ptr \<Rightarrow> mem \<Rightarrow> bool \<times> slab_class_t list \<times> mem" where
  "slab__init_classes [] region_size region_ptr m = (True, [], m)"
| "slab__init_classes (s # ss) region_size region_ptr m =
     (let aligned_slot_size = SLAB_MAX (SLAB_ALIGN_UP s SLAB_ALIGNMENT) SLAB_MIN_SLOT_SIZE;
          slots = region_size div aligned_slot_size
      in
      if slots = 0 then (False, [], m)
      else
        let (cls, m') = slab__build_free_list
              \<lparr>slab_class_t.slot_size = aligned_slot_size, slab_class_t.free_list = 0,
               region_start = region_ptr,
               region_end = region_ptr + slots * aligned_slot_size,
               slab_class_t.slot_count = slots, slab_class_t.free_count = 0\<rparr> m;
            (ok, rest, m'') = slab__init_classes ss region_size (region_ptr + region_size) m'
        in (ok, cls # rest, m''))"

text \<open>
  \<^verbatim>\<open>slab_init\<close>. The array \<^verbatim>\<open>sizes[]\<close> is a list that holds at least \<open>cnt\<close> entries, \<open>cnt\<close>
  being the parameter \<^verbatim>\<open>count\<close>; the descriptor and the \<^verbatim>\<open>sizes\<close> pointer are non-null.
\<close>

definition slab_init ::
  "slab_t \<Rightarrow> mem \<Rightarrow> ptr \<Rightarrow> size_t \<Rightarrow> size_t list \<Rightarrow> size_t \<Rightarrow> int \<times> slab_t \<times> mem" where
  "slab_init slab m buf sz sizes cnt =
     (if buf = NULL then (SLAB_ERR_NULL_PARAM, slab, m)
      else if sz = 0 \<or> cnt = 0 then (SLAB_ERR_ZERO_SIZE, slab, m)
      else if cnt > SLAB_MAX_CLASSES then (SLAB_ERR_TOO_MANY, slab, m)
      else if slab_t.initialized slab = SLAB_MAGIC then (SLAB_ERR_ALREADY_INIT, slab, m)
      else if \<exists>i \<in> set [0..<unat cnt]. sizes ! i = 0 then (SLAB_ERR_INVALID_SIZE, slab, m)
      else
        let sorted_sizes = slab__sort_sizes (take (unat cnt) sizes) (unat cnt) in
        if \<exists>i \<in> set [1..<unat cnt]. sorted_sizes ! i = sorted_sizes ! (i - 1)
        then (SLAB_ERR_INVALID_SIZE, slab, m)
        else
          let slab1 = slab\<lparr>slab_t.buffer := buf, slab_t.capacity := sz\<rparr>;
              alignment_loss = SLAB_ALIGN_UP buf SLAB_ALIGNMENT - buf
          in
          if alignment_loss \<ge> sz then (SLAB_ERR_BUFFER_SMALL, slab1, m)
          else
            let slab2 = slab1\<lparr>aligned_start := buf + alignment_loss,
                              slab_t.usable_capacity := sz - alignment_loss,
                              slab_t.class_count := cnt\<rparr>;
                region_size = ((sz - alignment_loss) div cnt) div SLAB_ALIGNMENT
                                * SLAB_ALIGNMENT
            in
            if region_size < SLAB_ALIGNMENT then (SLAB_ERR_BUFFER_SMALL, slab2, m)
            else
              let (ok, cs, m') =
                    slab__init_classes sorted_sizes region_size (buf + alignment_loss) m
              in
              if \<not> ok then (SLAB_ERR_BUFFER_SMALL, slab_zero, m')
              else
                (SLAB_OK,
                 slab2\<lparr>classes := cs @ replicate (16 - unat cnt) slab_class_zero,
                        slab_t.initialized := SLAB_MAGIC\<rparr>,
                 m'))"

definition slab_alloc :: "slab_t \<Rightarrow> mem \<Rightarrow> size_t \<Rightarrow> ptr \<times> slab_t" where
  "slab_alloc slab m sz =
     (if slab_t.initialized slab \<noteq> SLAB_MAGIC \<or> sz = 0 then (NULL, slab)
      else
        let class_idx = slab__find_class_for_size slab sz in
        if class_idx = SLAB_NO_CLASS then (NULL, slab)
        else
          let cls = classes slab ! unat class_idx in
          if slab_class_t.free_list cls = NULL then (NULL, slab)
          else
            let node = slab_class_t.free_list cls;
                cls' = cls\<lparr>slab_class_t.free_list := m node,
                           slab_class_t.free_count := slab_class_t.free_count cls - 1\<rparr>
            in (node, slab\<lparr>classes := (classes slab)[unat class_idx := cls']\<rparr>))"

definition slab_free :: "slab_t \<Rightarrow> mem \<Rightarrow> ptr \<Rightarrow> (slab_t \<times> mem) option" where
  "slab_free slab m p =
     (if p = NULL then Some (slab, m)
      else if slab_t.initialized slab \<noteq> SLAB_MAGIC then None
      else
        let class_idx = slab__find_class_for_ptr slab p in
        if class_idx = SLAB_NO_CLASS then None
        else
          let cls = classes slab ! unat class_idx in
          if \<not> slab__validate_ptr_in_class cls p then None
          else
            let cls' = cls\<lparr>slab_class_t.free_list := p,
                           slab_class_t.free_count := slab_class_t.free_count cls + 1\<rparr>
            in Some (slab\<lparr>classes := (classes slab)[unat class_idx := cls']\<rparr>,
                     m(p := slab_class_t.free_list cls)))"

definition slab_usable_size :: "slab_t \<Rightarrow> ptr \<Rightarrow> size_t" where
  "slab_usable_size slab p =
     (if slab_t.initialized slab \<noteq> SLAB_MAGIC \<or> p = NULL then 0
      else
        let class_idx = slab__find_class_for_ptr slab p in
        if class_idx = SLAB_NO_CLASS then 0
        else slab_class_t.slot_size (classes slab ! unat class_idx))"

definition slab_max_alloc :: "slab_t \<Rightarrow> size_t" where
  "slab_max_alloc slab =
     (if slab_t.initialized slab \<noteq> SLAB_MAGIC \<or> slab_t.class_count slab = 0 then 0
      else slab_class_t.slot_size (classes slab ! (unat (slab_t.class_count slab) - 1)))"

definition slab_class_stats :: "slab_t \<Rightarrow> size_t \<Rightarrow> slab_class_stats_t" where
  "slab_class_stats slab class_index =
     (if slab_t.initialized slab \<noteq> SLAB_MAGIC \<or> class_index \<ge> slab_t.class_count slab
      then \<lparr>slab_class_stats_t.slot_size = 0, slab_class_stats_t.total_slots = 0,
            slab_class_stats_t.used_slots = 0, slab_class_stats_t.free_slots = 0,
            slab_class_stats_t.peak_used = 0, alloc_count = 0,
            slab_class_stats_t.free_count = 0\<rparr>
      else
        let cls = classes slab ! unat class_index in
        \<lparr>slab_class_stats_t.slot_size = slab_class_t.slot_size cls,
         slab_class_stats_t.total_slots = slab_class_t.slot_count cls,
         slab_class_stats_t.used_slots =
           slab_class_t.slot_count cls - slab_class_t.free_count cls,
         slab_class_stats_t.free_slots = slab_class_t.free_count cls,
         slab_class_stats_t.peak_used =
           slab_class_t.slot_count cls - slab_class_t.free_count cls,
         alloc_count = 0,
         slab_class_stats_t.free_count = 0\<rparr>)"

section \<open>Runs of calls and well-formed states\<close>

text \<open>
  A list of results \<open>(pointer, size)\<close> in the order the allocations were made has no
  overlap when any two successful (non-null) allocations of non-zero size in it have
  disjoint byte ranges.
\<close>

definition no_overlap :: "(ptr \<times> size_t) list \<Rightarrow> bool" where
  "no_overlap rs \<longleftrightarrow>
     (\<forall>i j. i < j \<and> j < length rs
        \<and> fst (rs ! i) \<noteq> NULL \<and> fst (rs ! j) \<noteq> NULL
        \<and> snd (rs ! i) \<noteq> 0 \<and> snd (rs ! j) \<noteq> 0
        \<longrightarrow> byte_range (fst (rs ! i)) (snd (rs ! i))
              \<inter> byte_range (fst (rs ! j)) (snd (rs ! j)) = {})"

text \<open>
  A sequence of \<^verbatim>\<open>arena_alloc_aligned\<close> calls with the given \<open>(size, align)\<close> arguments and
  nothing in between; the results are paired with the sizes asked for.
\<close>

fun arena_allocs ::
  "arena_t \<Rightarrow> (size_t \<times> size_t) list \<Rightarrow> ((ptr \<times> size_t) list \<times> arena_t) option" where
  "arena_allocs arena [] = Some ([], arena)"
| "arena_allocs arena ((sz, align) # reqs) =
     (case arena__alloc arena sz align of
        None \<Rightarrow> None
      | Some (p, arena') \<Rightarrow>
          (case arena_allocs arena' reqs of
             None \<Rightarrow> None
           | Some (rs, arena'') \<Rightarrow> Some ((p, sz) # rs, arena'')))"

text \<open>
  The region a stack was given is an object of the address space with room for one more
  header word above it, and the watermark is inside it.
\<close>

definition stack_valid :: "stack_t \<Rightarrow> bool" where
  "stack_valid stack \<longleftrightarrow>
     stack_t.buffer stack \<noteq> NULL
     \<and> unat (stack_t.buffer stack) + unat (stack_t.capacity stack) + 8 < 2 ^ 64
     \<and> stack_t.offset stack \<le> stack_t.capacity stack"

fun stack_allocs ::
  "stack_t \<Rightarrow> mem \<Rightarrow> (size_t \<times> size_t) list
     \<Rightarrow> ((ptr \<times> size_t) list \<times> stack_t \<times> mem) option" where
  "stack_allocs stack m [] = Some ([], stack, m)"
| "stack_allocs stack m ((sz, align) # reqs) =
     (case stack_alloc_aligned stack m sz align of
        None \<Rightarrow> None
      | Some (p, stack', m') \<Rightarrow>
          (case stack_allocs stack' m' reqs of
             None \<Rightarrow> None
           | Some (rs, stack'', m'') \<Rightarrow> Some ((p, sz) # rs, stack'', m'')))"

fun stack_frees :: "stack_t \<Rightarrow> mem \<Rightarrow> ptr list \<Rightarrow> (stack_t \<times> mem) option" where
  "stack_frees stack m [] = Some (stack, m)"
| "stack_frees stack m (p # ps) =
     (case stack_free stack m p of
        None \<Rightarrow> None
      | Some (stack', m') \<Rightarrow> stack_frees stack' m' ps)"

text \<open>
  A buffer of \<open>n\<close> bytes at \<open>buf\<close> handed to an \<^verbatim>\<open>init\<close> function is an object of the
  address space: it is not null and its end does not wrap.
\<close>

definition valid_buffer :: "ptr \<Rightarrow> size_t \<Rightarrow> bool" where
  "valid_buffer buf n \<longleftrightarrow> buf \<noteq> NULL \<and> unat buf + unat n < 2 ^ 64"

text \<open>
  Slot \<open>i\<close> of a run of slots of \<open>ss\<close> bytes from \<open>base\<close>, the first \<open>n\<close> of them, and
  the condition that \<open>cnt\<close> of them lie in the address space.
\<close>

definition slot_addr :: "ptr \<Rightarrow> size_t \<Rightarrow> nat \<Rightarrow> ptr" where
  "slot_addr base ss i = base + of_nat i * ss"

definition slot_addrs :: "ptr \<Rightarrow> size_t \<Rightarrow> nat \<Rightarrow> ptr list" where
  "slot_addrs base ss n = map (slot_addr base ss) [0..<n]"

definition slots_fit :: "ptr \<Rightarrow> size_t \<Rightarrow> size_t \<Rightarrow> bool" where
  "slots_fit base ss cnt \<longleftrightarrow>
     base \<noteq> NULL \<and> ss \<noteq> 0 \<and> unat base + unat cnt * unat ss < 2 ^ 64"

text \<open>
  The intrusive free list: \<open>free_chain m p xs\<close> holds when following the links stored in
  \<open>m\<close> from \<open>p\<close> visits exactly the addresses \<open>xs\<close> and then reaches null.
\<close>

fun free_chain :: "mem \<Rightarrow> ptr \<Rightarrow> ptr list \<Rightarrow> bool" where
  "free_chain m p [] \<longleftrightarrow> p = NULL"
| "free_chain m p (x # xs) \<longleftrightarrow> p = x \<and> x \<noteq> NULL \<and> free_chain m (m x) xs"

definition pool_slots :: "pool_t \<Rightarrow> ptr set" where
  "pool_slots pool =
     set (slot_addrs (pool_t.buffer pool) (pool_t.slot_size pool)
            (unat (pool_t.slot_count pool)))"

definition pool_geometry :: "pool_t \<Rightarrow> bool" where
  "pool_geometry pool \<longleftrightarrow>
     slots_fit (pool_t.buffer pool) (pool_t.slot_size pool) (pool_t.slot_count pool)
     \<and> buffer_end pool
         = pool_t.buffer pool + pool_t.slot_count pool * pool_t.slot_size pool"

text \<open>
  Two invariants of a pool with its store and its set of live pointers. Both say that the
  slots lie in the address space and that every live pointer is a slot. \<open>pool_inv\<close> adds
  that the free list is a null-terminated chain of distinct slots none of which is live;
  \<open>pool_links\<close> only that the head of the free list and the link stored in every slot are
  null or a slot.
\<close>

definition pool_inv :: "pool_t \<Rightarrow> mem \<Rightarrow> ptr set \<Rightarrow> bool" where
  "pool_inv pool m live \<longleftrightarrow>
     pool_geometry pool \<and> live \<subseteq> pool_slots pool
     \<and> (\<exists>xs. free_chain m (pool_t.free_list pool) xs \<and> distinct xs
            \<and> set xs \<subseteq> pool_slots pool \<and> set xs \<inter> live = {})"

definition pool_links :: "pool_t \<Rightarrow> mem \<Rightarrow> ptr set \<Rightarrow> bool" where
  "pool_links pool m live \<longleftrightarrow>
     pool_geometry pool \<and> live \<subseteq> pool_slots pool
     \<and> (pool_t.free_list pool = NULL \<or> pool_t.free_list pool \<in> pool_slots pool)
     \<and> (\<forall>s \<in> pool_slots pool. m s = NULL \<or> m s \<in> pool_slots pool)"

text \<open>
  Calls on a pool. A run threads the descriptor and the store through the calls and keeps,
  as a ghost component, the set of live pointers: those returned by a \<^verbatim>\<open>pool_alloc\<close> and
  not yet given back by a \<^verbatim>\<open>pool_free\<close> that returned \<^verbatim>\<open>POOL_OK\<close>.
\<close>

datatype pool_call = Alloc | Free ptr

fun pool_call_step :: "pool_t \<times> mem \<times> ptr set \<Rightarrow> pool_call \<Rightarrow> pool_t \<times> mem \<times> ptr set" where
  "pool_call_step (pool, m, live) Alloc =
     (let (p, pool') = pool_alloc pool m
      in (pool', m, if p = NULL then live else insert p live))"
| "pool_call_step (pool, m, live) (Free p) =
     (let (e, pool', m') = pool_free pool m p
      in (pool', m', if e = POOL_OK then live - {p} else live))"

fun pool_run :: "pool_t \<times> mem \<times> ptr set \<Rightarrow> pool_call list \<Rightarrow> pool_t \<times> mem \<times> ptr set" where
  "pool_run st [] = st"
| "pool_run st (c # cs) = pool_run (pool_call_step st c) cs"

text \<open>A run keeps to the contract when every pointer it frees is live at that moment.\<close>

fun frees_live :: "pool_t \<times> mem \<times> ptr set \<Rightarrow> pool_call list \<Rightarrow> bool" where
  "frees_live st [] \<longleftrightarrow> True"
| "frees_live st (Alloc # cs) \<longleftrightarrow> frees_live (pool_call_step st Alloc) cs"
| "frees_live st (Free p # cs) \<longleftrightarrow>
     p \<in> snd (snd st) \<and> frees_live (pool_call_step st (Free p)) cs"

text \<open>\<open>n\<close> calls of \<^verbatim>\<open>pool_alloc\<close> in a row, with the pointers they return.\<close>

fun pool_allocs :: "pool_t \<Rightarrow> mem \<Rightarrow> nat \<Rightarrow> ptr list \<times> pool_t" where
  "pool_allocs pool m 0 = ([], pool)"
| "pool_allocs pool m (Suc n) =
     (let (p, pool') = pool_alloc pool m; (ps, pool'') = pool_allocs pool' m n
      in (p # ps, pool''))"

section \<open>Rounding up to a power of two\<close>

lemma and_not_mask_sub:
  fixes y :: "64 word"
  shows "y AND NOT (mask k) = y - take_bit k y"
proof -
  have "y AND NOT (mask k) = push_bit k (drop_bit k y)"
    by (rule bit_eqI) (auto simp add: bit_simps)
  moreover have "push_bit k (drop_bit k y) + take_bit k y = y"
    by (rule bits_ident)
  ultimately show ?thesis
    by (simp add: algebra_simps)
qed

lemma unat_and_not_mask:
  fixes y :: "64 word"
  shows "unat (y AND NOT (mask k)) = unat y - unat y mod 2 ^ k"
proof -
  have le: "take_bit k y \<le> y"
    by (simp add: unsigned_take_bit_eq word_le_nat_alt)
  have "unat (take_bit k y) = unat y mod 2 ^ k"
    by (metis take_bit_eq_mod unsigned_take_bit_eq)
  with le show ?thesis
    by (simp add: and_not_mask_sub unat_sub)
qed

lemma unat_mask_64:
  assumes "k < 64"
  shows "unat (mask k :: 64 word) = 2 ^ k - 1"
proof -
  have "unat (mask k :: 64 word) = nat (mask (min 64 k))"
    by (simp only: unat_eq_nat_uint uint_mask_eq len_of_numeral_defs) simp
  also have "\<dots> = nat (2 ^ k - 1)"
    using assms by (simp only: mask_eq_exp_minus_1 min_def) simp
  also have "\<dots> = 2 ^ k - 1"
    by (simp add: nat_diff_distrib nat_power_eq)
  finally show ?thesis .
qed

lemma align_mask_cases:
  fixes x :: "64 word"
  assumes k: "k < 64"
  shows "(unat x + 2 ^ k - 1 < 2 ^ 64
            \<and> unat x \<le> unat ((x + 2 ^ k - 1) AND NOT (2 ^ k - 1))
            \<and> unat ((x + 2 ^ k - 1) AND NOT (2 ^ k - 1)) < unat x + 2 ^ k
            \<and> 2 ^ k dvd unat ((x + 2 ^ k - 1) AND NOT (2 ^ k - 1)))
       \<or> (2 ^ 64 \<le> unat x + 2 ^ k - 1 \<and> (x + 2 ^ k - 1) AND NOT (2 ^ k - 1) = 0)"
proof -
  define y where "y = x + mask k"
  have m: "(2 ^ k :: 64 word) - 1 = mask k"
    by (simp add: mask_eq_decr_exp)
  have um: "unat (mask k :: 64 word) = 2 ^ k - 1"
    using k by (rule unat_mask_64)
  have pk: "(0::nat) < 2 ^ k" by simp
  have e: "x + 2 ^ k - 1 = x + mask k"
    by (simp add: mask_eq_decr_exp)
  have r: "(x + 2 ^ k - 1) AND NOT (2 ^ k - 1) = y AND NOT (mask k)"
    by (simp only: e m y_def)
  have ur: "unat (y AND NOT (mask k)) = unat y - unat y mod 2 ^ k"
    by (rule unat_and_not_mask)
  define P :: nat where "P = 2 ^ k"
  define X where "X = unat x"
  define Y where "Y = unat y"
  have P0: "0 < P" by (simp add: P_def)
  have xl: "X < 2 ^ 64" unfolding X_def using unsigned_less [of x] by simp
  have ur': "unat (y AND NOT (mask k)) = Y - Y mod P"
    unfolding Y_def P_def by (rule ur)
  have sum: "Y = (if X + (P - 1) < 2 ^ 64 then X + (P - 1) else X + (P - 1) - 2 ^ 64)"
    unfolding Y_def X_def P_def y_def using um by (simp add: unat_plus_if')
  have md: "Y mod P < P" using P0 by simp
  have ml: "Y mod P \<le> Y" by (rule mod_less_eq_dividend)
  have dv: "P dvd Y - Y mod P" by (simp add: dvd_minus_mod)
  show ?thesis
  proof (cases "X + P - 1 < 2 ^ 64")
    case True
    with P0 have Yeq: "Y = X + (P - 1)" using sum by simp
    have 1: "X \<le> Y - Y mod P" using Yeq md by linarith
    have 2: "Y - Y mod P < X + P" using Yeq P0 by linarith
    from True 1 2 dv show ?thesis
      unfolding r ur' X_def [symmetric] P_def [symmetric] by blast
  next
    case False
    with P0 have Yeq: "Y = X + (P - 1) - 2 ^ 64" using sum by simp
    with xl P0 have "Y < P" by linarith
    then have "unat (y AND NOT (mask k)) = 0"
      unfolding ur' by simp
    then have "y AND NOT (mask k) = 0"
      by (simp add: unat_eq_0)
    with False show ?thesis
      unfolding r X_def [symmetric] P_def [symmetric] by simp
  qed
qed

section \<open>Zero-size arena allocations\<close>

lemma pow2_is_power_of_two:
  assumes "k < 64"
  shows "(2 ^ k :: 64 word) \<noteq> 0 \<and> ((2 ^ k :: 64 word) AND (2 ^ k - 1)) = 0"
proof
  show "(2 ^ k :: 64 word) \<noteq> 0"
    using assms by (simp add: exp_eq_zero_iff)
  have "(2 ^ k :: 64 word) - 1 = mask k"
    by (simp add: mask_eq_decr_exp)
  moreover have "((2 ^ k :: 64 word) AND mask k) = 0"
    by (rule bit_eqI) (auto simp add: bit_simps)
  ultimately show "((2 ^ k :: 64 word) AND (2 ^ k - 1)) = 0"
    by simp
qed

lemma arena__is_power_of_two_exp: "k < 64 \<Longrightarrow> arena__is_power_of_two (2 ^ k)"
  using pow2_is_power_of_two [of k] by (simp add: arena__is_power_of_two_def)

lemma stack__is_power_of_two_exp: "k < 64 \<Longrightarrow> stack__is_power_of_two (2 ^ k)"
  using pow2_is_power_of_two [of k] by (simp add: stack__is_power_of_two_def)

text \<open>
  C7. On an initialized arena a zero-size allocation (with any power-of-two alignment, in
  particular \<^verbatim>\<open>arena_alloc\<close> with the default one) returns \<open>buffer + offset\<close> and the
  descriptor exactly as it was; hence a second zero-size allocation made right after it
  returns the same pointer.
\<close>

theorem arena_zero_size_alloc:
  assumes "arena_t.initialized arena"
    and "arena__is_power_of_two align" and "arena__is_power_of_two align'"
  shows "arena__alloc arena 0 align
           = Some (arena_t.buffer arena + arena_t.offset arena, arena)
       \<and> arena_alloc arena 0 = Some (arena_t.buffer arena + arena_t.offset arena, arena)
       \<and> (\<forall>p arena'. arena__alloc arena 0 align = Some (p, arena')
            \<longrightarrow> arena__alloc arena' 0 align' = Some (p, arena'))"
proof -
  have "arena__is_power_of_two ARENA_DEFAULT_ALIGN"
    using arena__is_power_of_two_exp [of 5] by (simp add: ARENA_DEFAULT_ALIGN_def)
  with assms show ?thesis
    by (simp add: arena__alloc_def arena_alloc_def)
qed

theorem arena_zero_size_alloc_witness:
  "arena__alloc \<lparr>arena_t.buffer = 4096, arena_t.capacity = 64, arena_t.offset = 3,
                 arena_t.initialized = True\<rparr> 0 16
     = Some (4099, \<lparr>arena_t.buffer = 4096, arena_t.capacity = 64, arena_t.offset = 3,
                    arena_t.initialized = True\<rparr>)
   \<and> arena__alloc \<lparr>arena_t.buffer = 4096, arena_t.capacity = 64, arena_t.offset = 3,
                   arena_t.initialized = True\<rparr> 0 8
     = Some (4099, \<lparr>arena_t.buffer = 4096, arena_t.capacity = 64, arena_t.offset = 3,
                    arena_t.initialized = True\<rparr>)"
proof -
  have a: "arena__is_power_of_two 16" and b: "arena__is_power_of_two 8"
    by (simp_all add: arena__is_power_of_two_def)
  have i: "arena_t.initialized \<lparr>arena_t.buffer = 4096, arena_t.capacity = 64,
             arena_t.offset = 3, arena_t.initialized = True\<rparr>"
    by simp
  show ?thesis
    using arena_zero_size_alloc [OF i a b] arena_zero_size_alloc [OF i b a] by simp
qed

section \<open>Small alignments on the stack\<close>

text \<open>
  C10. On an initialized stack, for a size above 0 and an alignment \<open>a\<close> with
  \<open>0 < a < sizeof(size_t)\<close>, \<^verbatim>\<open>stack_alloc_aligned\<close> gives exactly the result it gives for
  the alignment \<open>sizeof(size_t)\<close>, and the power-of-two assertion does not fail: the small
  alignment is raised, not refused.
\<close>

theorem stack_small_alignment_raised:
  assumes "stack_t.buffer stack \<noteq> NULL" and "0 < sz"
    and "0 < a" and "a < SIZEOF_PTR"
  shows "stack_alloc_aligned stack m sz a = stack_alloc_aligned stack m sz SIZEOF_PTR
       \<and> stack_alloc_aligned stack m sz a \<noteq> None"
proof -
  have "stack__is_power_of_two STACK_MIN_ALIGNMENT"
    using stack__is_power_of_two_exp [of 3] by (simp add: STACK_MIN_ALIGNMENT_def)
  with assms show ?thesis
    by (simp add: stack_alloc_aligned_def SIZEOF_PTR_def STACK_MIN_ALIGNMENT_def Let_def)
qed

theorem stack_small_alignment_raised_witness:
  "stack_alloc_aligned \<lparr>stack_t.buffer = 4096, stack_t.capacity = 64, stack_t.offset = 0\<rparr>
       (\<lambda>_. 0) 5 3
     = stack_alloc_aligned \<lparr>stack_t.buffer = 4096, stack_t.capacity = 64, stack_t.offset = 0\<rparr>
       (\<lambda>_. 0) 5 8
   \<and> stack_alloc_aligned \<lparr>stack_t.buffer = 4096, stack_t.capacity = 64, stack_t.offset = 0\<rparr>
       (\<lambda>_. 0) 5 3 \<noteq> None"
proof -
  have h: "stack_t.buffer \<lparr>stack_t.buffer = 4096, stack_t.capacity = 64,
             stack_t.offset = 0\<rparr> \<noteq> NULL"
    "(0::64 word) < 5" "(0::64 word) < 3" "(3::64 word) < SIZEOF_PTR"
    by (simp_all add: NULL_def SIZEOF_PTR_def)
  have e: "SIZEOF_PTR = 8"
    by (simp add: SIZEOF_PTR_def)
  show ?thesis
    using stack_small_alignment_raised [OF h, of "\<lambda>_. 0"] unfolding e .
qed

section \<open>Powers of two as words\<close>

lemma unat_exp_64:
  assumes "k < 64"
  shows "unat (2 ^ k :: 64 word) = 2 ^ k"
proof -
  have "(2 ^ k :: 64 word) = of_nat (2 ^ k)" by simp
  then have "unat (2 ^ k :: 64 word) = 2 ^ k mod 2 ^ 64"
    by (simp only: unat_of_nat len_of_numeral_defs) simp
  moreover have "(2::nat) ^ k < 2 ^ 64"
    using assms by (simp only: power_strict_increasing_iff)
  ultimately show ?thesis by simp
qed

lemma exp_less_8:
  assumes "k < 64"
  shows "((2 ^ k :: 64 word) < 8) = (k < 3)"
proof -
  have "((2 ^ k :: 64 word) < 2 ^ 3) = ((2::nat) ^ k < 2 ^ 3)"
    using assms by (simp only: word_less_nat_alt unat_exp_64)
  also have "\<dots> = (k < 3)"
    by (simp only: power_strict_increasing_iff)
  finally show ?thesis by simp
qed

lemma stack_effective_alignment:
  assumes "k < 64"
  shows "(if (2 ^ k :: 64 word) < STACK_MIN_ALIGNMENT then STACK_MIN_ALIGNMENT else 2 ^ k)
           = 2 ^ max k 3"
  using exp_less_8 [OF assms] by (auto simp add: STACK_MIN_ALIGNMENT_def max_def)

lemma nat_and_pred_zero:
  fixes n :: nat
  shows "0 < n \<Longrightarrow> n AND (n - 1) = 0 \<Longrightarrow> \<exists>k. n = 2 ^ k"
proof (induction n rule: nat_bit_induct)
  case zero
  then show ?case by simp
next
  case (even n)
  have "(2 * n - 1) div 2 = n - 1"
    using even.hyps by simp
  then have "(2 * n) AND (2 * n - 1) = 2 * (n AND (n - 1))"
    by (subst and_rec) simp
  with even.prems have "n AND (n - 1) = 0" by simp
  with even.IH even.hyps obtain k where "n = 2 ^ k" by auto
  then have "2 * n = 2 ^ Suc k" by simp
  then show ?case by blast
next
  case (odd n)
  have "Suc (2 * n) AND (Suc (2 * n) - 1) = 2 * (n AND n)"
    by (subst and_rec) simp
  with odd.prems have "n = 0" by simp
  then have "Suc (2 * n) = 2 ^ 0" by simp
  then show ?case by blast
qed

lemma word_and_pred_zero:
  fixes x :: "64 word"
  assumes "x \<noteq> 0" and "(x AND (x - 1)) = 0"
  shows "\<exists>k<64. x = 2 ^ k"
proof -
  have pos: "0 < unat x" using assms(1) by (simp add: unat_gt_0)
  have "unat (x AND (x - 1)) = unat x AND unat (x - 1)"
    by (simp add: unsigned_and_eq)
  also have "unat (x - 1) = unat x - 1"
    using assms(1) by (rule unat_minus_one)
  finally have "unat x AND (unat x - 1) = 0"
    using assms(2) by simp
  with pos obtain k where k: "unat x = 2 ^ k"
    using nat_and_pred_zero by blast
  have "unat x < 2 ^ 64" using unsigned_less [of x] by simp
  with k have "(2::nat) ^ k < 2 ^ 64" by simp
  then have k64: "k < 64" by (simp only: power_strict_increasing_iff) 
  have "x = of_nat (unat x)" by simp
  also have "\<dots> = 2 ^ k" unfolding k by simp
  finally show ?thesis using k64 by blast
qed

section \<open>Successful stack allocations\<close>

text \<open>
  The two outcomes of \<^verbatim>\<open>stack_alloc_aligned\<close> on a valid stack: null with nothing changed,
  or a block at a user offset \<open>uo\<close> past the old watermark and its header word.
\<close>

lemma stack_alloc_aligned_cases:
  assumes v: "stack_valid stack" and k: "k < 64"
  shows "stack_alloc_aligned stack m sz (2 ^ k) = Some (NULL, stack, m)
       \<or> (\<exists>uo. stack_alloc_aligned stack m sz (2 ^ k)
                  = Some (stack_t.buffer stack + uo, stack\<lparr>stack_t.offset := uo + sz\<rparr>,
                          m(stack__get_header (stack_t.buffer stack + uo)
                              := stack_t.offset stack))
              \<and> stack_t.buffer stack + uo \<noteq> NULL
              \<and> unat (stack_t.buffer stack + uo) = unat (stack_t.buffer stack) + unat uo
              \<and> unat (stack_t.offset stack) + 8 \<le> unat uo
              \<and> unat uo + unat sz \<le> unat (stack_t.capacity stack)
              \<and> sz \<noteq> 0
              \<and> 2 ^ max k 3 dvd unat (stack_t.buffer stack + uo))"
proof (cases "sz = 0")
  case True
  then show ?thesis
    using v by (simp add: stack_alloc_aligned_def stack_valid_def)
next
  case sz0: False
  define b where "b = stack_t.buffer stack"
  define c where "c = stack_t.capacity stack"
  define off where "off = stack_t.offset stack"
  define K where "K = max k 3"
  define x where "x = b + off + STACK_HEADER_SIZE"
  define r where "r = (x + 2 ^ K - 1) AND NOT (2 ^ K - 1)"
  define uo where "uo = r - b"
  define e where "e = uo + sz"
  have K: "K < 64" using k by (simp add: K_def)
  have b0: "b \<noteq> 0" and room: "unat b + unat c + 8 < 2 ^ 64" and oc: "unat off \<le> unat c"
    using v by (simp_all add: stack_valid_def b_def c_def off_def NULL_def word_le_nat_alt)
  have pw: "stack__is_power_of_two (2 ^ K)"
    using K by (rule stack__is_power_of_two_exp)
  have unfold: "stack_alloc_aligned stack m sz (2 ^ k) =
      (if e < uo \<or> e > c then Some (NULL, stack, m)
       else Some (b + uo, stack\<lparr>stack_t.offset := e\<rparr>,
                  m(stack__get_header (b + uo) := off)))"
    using b0 sz0 pw
    by (simp add: stack_alloc_aligned_def stack_effective_alignment [OF k] Let_def NULL_def
        b_def [symmetric] c_def [symmetric] off_def [symmetric] K_def [symmetric]
        x_def [symmetric] r_def [symmetric] uo_def [symmetric] e_def [symmetric])
  show ?thesis
  proof (cases "e < uo \<or> e > c")
    case True
    then show ?thesis unfolding unfold by simp
  next
    case ok: False
    have ux: "unat x = unat b + unat off + 8"
    proof -
      have "unat (b + off) = unat b + unat off"
        using room oc by (simp add: unat_plus_if')
      then show ?thesis
        using room oc by (simp add: x_def STACK_HEADER_SIZE_def unat_plus_if')
    qed
    have cases: "(unat x + 2 ^ K - 1 < 2 ^ 64 \<and> unat x \<le> unat r \<and> unat r < unat x + 2 ^ K
                    \<and> 2 ^ K dvd unat r)
               \<or> (2 ^ 64 \<le> unat x + 2 ^ K - 1 \<and> r = 0)"
      unfolding r_def using K by (rule align_mask_cases)
    have "uo \<le> uo + sz" and le': "e \<le> c"
      using ok by (simp_all add: e_def not_less)
    then have ue: "unat e = unat uo + unat sz"
      unfolding e_def by (simp only: unat_plus_simple)
    have le: "unat e \<le> unat c"
      using le' by (simp add: word_le_nat_alt)
    have nowrap: "r \<noteq> 0"
    proof
      assume "r = 0"
      have "0 < unat b"
        using b0 by (simp add: unat_gt_0)
      then have "unat (0 - b) = 2 ^ 64 - unat b"
        by (simp only: unat_sub_if' len_of_numeral_defs) simp
      with \<open>r = 0\<close> have "unat uo = 2 ^ 64 - unat b"
        by (simp only: uo_def)
      with ue le room show False by simp
    qed
    with cases have 1: "unat x \<le> unat r" and 2: "2 ^ K dvd unat r" by auto
    have rb: "b \<le> r" using 1 ux by (simp add: word_le_nat_alt)
    have uuo: "unat uo = unat r - unat b"
      unfolding uo_def using rb by (rule unat_sub)
    have pr: "b + uo = r" by (simp add: uo_def)
    have u1: "unat (b + uo) = unat b + unat uo"
      using pr uuo 1 ux by simp
    have "0 < unat b" using b0 by (simp add: unat_gt_0)
    with u1 have "unat (b + uo) \<noteq> 0" by simp
    then have n0: "b + uo \<noteq> NULL" unfolding NULL_def by (simp only: unat_eq_0) simp
    have u2: "unat off + 8 \<le> unat uo" using uuo 1 ux by simp
    have u3: "unat uo + unat sz \<le> unat c" using ue le by simp
    have u4: "2 ^ K dvd unat (b + uo)" using pr 2 by simp
    have "stack_alloc_aligned stack m sz (2 ^ k)
        = Some (b + uo, stack\<lparr>stack_t.offset := uo + sz\<rparr>,
                m(stack__get_header (b + uo) := off))"
      using ok unfolding unfold e_def by simp
    with n0 u1 u2 u3 u4 sz0 show ?thesis
      unfolding b_def c_def off_def K_def by blast
  qed
qed

text \<open>What a successful \<^verbatim>\<open>stack_alloc_aligned\<close> has done.\<close>

lemma stack_alloc_aligned_success:
  assumes v: "stack_valid stack" and k: "k < 64"
    and a: "stack_alloc_aligned stack m sz (2 ^ k) = Some (p, stack', m')"
    and p: "p \<noteq> NULL"
  shows "\<exists>uo. p = stack_t.buffer stack + uo
           \<and> unat p = unat (stack_t.buffer stack) + unat uo
           \<and> unat (stack_t.offset stack) + 8 \<le> unat uo
           \<and> unat uo + unat sz \<le> unat (stack_t.capacity stack)
           \<and> sz \<noteq> 0
           \<and> stack' = stack\<lparr>stack_t.offset := uo + sz\<rparr>
           \<and> m' = m(stack__get_header p := stack_t.offset stack)
           \<and> 2 ^ max k 3 dvd unat p"
  using stack_alloc_aligned_cases [OF v k, of m sz] a p by auto

lemma stack_alloc_aligned_null:
  assumes v: "stack_valid stack" and k: "k < 64"
    and a: "stack_alloc_aligned stack m sz (2 ^ k) = Some (NULL, stack', m')"
  shows "stack' = stack \<and> m' = m"
  using stack_alloc_aligned_cases [OF v k, of m sz] a by auto

lemma stack_alloc_aligned_total:
  assumes v: "stack_valid stack" and k: "k < 64"
  shows "stack_alloc_aligned stack m sz (2 ^ k) \<noteq> None"
  using stack_alloc_aligned_cases [OF v k, of m sz] by auto

section \<open>Alignment of returned pointers\<close>

lemma align_mask_dvd:
  fixes x :: "64 word"
  assumes "k < 64"
  shows "2 ^ k dvd unat ((x + 2 ^ k - 1) AND NOT (2 ^ k - 1))"
  using align_mask_cases [OF assms, of x] by auto

lemma arena__calc_aligned_offset_success:
  assumes k: "k < 64"
    and c: "arena__calc_aligned_offset off (2 ^ k) sz cap = Some (al, pad)"
  shows "unat off \<le> unat al \<and> unat al + unat sz \<le> unat cap \<and> 2 ^ k dvd unat al"
proof -
  define r where "r = arena__align_up off (2 ^ k)"
  have ok: "\<not> r < off" "\<not> r > cap" "\<not> sz > cap - r" and al: "al = r"
    using c by (auto simp add: arena__calc_aligned_offset_def Let_def r_def split: if_splits)
  have "r \<le> cap" using ok(2) by simp
  then have "unat (cap - r) = unat cap - unat r" by (rule unat_sub)
  moreover have "unat sz \<le> unat (cap - r)" using ok(3) by (simp add: word_le_nat_alt not_less)
  moreover have "unat r \<le> unat cap" using \<open>r \<le> cap\<close> by (simp add: word_le_nat_alt)
  moreover have "unat off \<le> unat r" using ok(1) by (simp add: word_le_nat_alt not_less)
  moreover have "2 ^ k dvd unat r"
    unfolding r_def arena__align_up_def using k by (rule align_mask_dvd)
  ultimately show ?thesis unfolding al by simp
qed

lemma stack_alloc_aligned_address:
  assumes k: "k < 64"
    and a: "stack_alloc_aligned stack m sz (2 ^ k) = Some (p, stack', m')"
    and p: "p \<noteq> NULL"
  shows "2 ^ max k 3 dvd unat p"
proof -
  define K where "K = max k 3"
  have K: "K < 64" using k by (simp add: K_def)
  define x where "x = stack_t.buffer stack + stack_t.offset stack + STACK_HEADER_SIZE"
  define r where "r = (x + 2 ^ K - 1) AND NOT (2 ^ K - 1)"
  have "stack_t.buffer stack + (r - stack_t.buffer stack) = r" by simp
  then have "p = r"
    using a p
    by (auto simp add: stack_alloc_aligned_def stack_effective_alignment [OF k] Let_def
        K_def [symmetric] x_def [symmetric] r_def [symmetric] split: if_splits)
  moreover have "2 ^ K dvd unat r"
    unfolding r_def using K by (rule align_mask_dvd)
  ultimately show ?thesis by (simp add: K_def)
qed

lemma dvd_unat_add:
  fixes a b :: "64 word"
  assumes k: "k < 64" and "2 ^ k dvd unat a" and "2 ^ k dvd unat b"
  shows "2 ^ k dvd unat (a + b)"
proof -
  have "k \<le> 64" using k by simp
  then have "(2::nat) ^ k dvd 2 ^ 64"
    by (rule le_imp_power_dvd)
  moreover have "2 ^ k dvd unat a + unat b" using assms by simp
  ultimately have "2 ^ k dvd (unat a + unat b) mod 2 ^ 64"
    by (simp add: dvd_mod)
  then show ?thesis
    by (simp only: unat_word_ariths len_of_numeral_defs) simp
qed

text \<open>
  What the two allocators round. \<^verbatim>\<open>stack_alloc_aligned\<close> rounds the address of the user
  pointer, so a successful call with a power-of-two alignment \<open>a\<close> returns a multiple of
  \<open>a\<close> whatever buffer the stack was given. \<^verbatim>\<open>arena__alloc\<close> rounds the offset from the
  arena's base, so the address it returns for a non-zero size is a multiple of \<open>a\<close> only
  as far as the base is one.
\<close>

lemma stack_address_arena_offset_aligned:
  assumes k: "k < 64"
  shows "(stack_alloc_aligned stack m sz (2 ^ k) = Some (p, stack', m') \<and> p \<noteq> NULL
            \<longrightarrow> 2 ^ k dvd unat p)
       \<and> (arena_alloc_aligned arena sz' (2 ^ k) = Some (q, arena') \<and> q \<noteq> NULL \<and> sz' \<noteq> 0
            \<longrightarrow> 2 ^ k dvd unat (q - arena_t.buffer arena)
              \<and> (2 ^ k dvd unat (arena_t.buffer arena) \<longrightarrow> 2 ^ k dvd unat q))"
proof (intro conjI impI)
  assume "stack_alloc_aligned stack m sz (2 ^ k) = Some (p, stack', m') \<and> p \<noteq> NULL"
  then have "2 ^ max k 3 dvd unat p"
    using stack_alloc_aligned_address [OF k] by blast
  moreover have "(2::nat) ^ k dvd 2 ^ max k 3"
    by (simp add: le_imp_power_dvd)
  ultimately show "2 ^ k dvd unat p"
    by (rule dvd_trans [rotated])
next
  assume h: "arena_alloc_aligned arena sz' (2 ^ k) = Some (q, arena') \<and> q \<noteq> NULL \<and> sz' \<noteq> 0"
  then obtain al pad where
    c: "arena__calc_aligned_offset (arena_t.offset arena) (2 ^ k) sz' (arena_t.capacity arena)
          = Some (al, pad)"
    and q: "q = arena_t.buffer arena + al"
    by (auto simp add: arena_alloc_aligned_def arena__alloc_def split: if_splits option.splits)
  have d: "2 ^ k dvd unat al"
    using arena__calc_aligned_offset_success [OF k c] by simp
  show "2 ^ k dvd unat (q - arena_t.buffer arena)"
    using d by (simp add: q)
  assume "2 ^ k dvd unat (arena_t.buffer arena)"
  then show "2 ^ k dvd unat q"
    unfolding q using d k by (simp add: dvd_unat_add)
qed

lemma stack_address_arena_offset_aligned_witness:
  "stack_alloc_aligned \<lparr>stack_t.buffer = 4097, stack_t.capacity = 64, stack_t.offset = 0\<rparr>
       (\<lambda>_. 0) 5 (2 ^ 4)
     = Some (4112, \<lparr>stack_t.buffer = 4097, stack_t.capacity = 64, stack_t.offset = 20\<rparr>,
             (\<lambda>_. 0)(4104 := 0))
   \<and> (4112 :: 64 word) \<noteq> NULL \<and> (2::nat) ^ 4 dvd unat (4112 :: 64 word)
   \<and> arena_alloc_aligned \<lparr>arena_t.buffer = 4096, arena_t.capacity = 64, arena_t.offset = 3,
                           arena_t.initialized = True\<rparr> 5 (2 ^ 4)
     = Some (4112, \<lparr>arena_t.buffer = 4096, arena_t.capacity = 64, arena_t.offset = 21,
                     arena_t.initialized = True\<rparr>)
   \<and> (5 :: 64 word) \<noteq> 0
   \<and> (2::nat) ^ 4 dvd unat (4112 - 4096 :: 64 word)
   \<and> (2::nat) ^ 4 dvd unat (4096 :: 64 word)"
proof -
  have k: "(4::nat) < 64" by simp
  have s: "stack_alloc_aligned
      \<lparr>stack_t.buffer = 4097, stack_t.capacity = 64, stack_t.offset = 0\<rparr> (\<lambda>_. 0) 5 (2 ^ 4)
     = Some (4112, \<lparr>stack_t.buffer = 4097, stack_t.capacity = 64, stack_t.offset = 20\<rparr>,
             (\<lambda>_. 0)(4104 := 0))"
    by (simp add: stack_alloc_aligned_def NULL_def STACK_MIN_ALIGNMENT_def
        STACK_HEADER_SIZE_def stack__is_power_of_two_def stack__get_header_def Let_def)
  have a: "arena_alloc_aligned \<lparr>arena_t.buffer = 4096, arena_t.capacity = 64,
      arena_t.offset = 3, arena_t.initialized = True\<rparr> 5 (2 ^ 4)
     = Some (4112, \<lparr>arena_t.buffer = 4096, arena_t.capacity = 64, arena_t.offset = 21,
                     arena_t.initialized = True\<rparr>)"
    by (simp add: arena_alloc_aligned_def arena__alloc_def arena__is_power_of_two_def
        arena__calc_aligned_offset_def arena__align_up_def Let_def)
  have n: "(4112 :: 64 word) \<noteq> NULL" "(5 :: 64 word) \<noteq> 0"
    by (simp_all add: NULL_def)
  have b: "(2::nat) ^ 4 dvd unat (4096 :: 64 word)" by simp
  show ?thesis
    using stack_address_arena_offset_aligned [OF k,
        of "\<lparr>stack_t.buffer = 4097, stack_t.capacity = 64, stack_t.offset = 0\<rparr>" "\<lambda>_. 0" 5
           4112 "\<lparr>stack_t.buffer = 4097, stack_t.capacity = 64, stack_t.offset = 20\<rparr>"
           "(\<lambda>_. 0)(4104 := 0)"
           "\<lparr>arena_t.buffer = 4096, arena_t.capacity = 64, arena_t.offset = 3,
             arena_t.initialized = True\<rparr>" 5 4112
           "\<lparr>arena_t.buffer = 4096, arena_t.capacity = 64, arena_t.offset = 21,
             arena_t.initialized = True\<rparr>"] s a n b
    by simp
qed

text \<open>
  C2 at a failing input. An arena is initialized over a 64-byte buffer at the address 4097
  and asked for 8 bytes aligned to 16. \<^verbatim>\<open>arena__alloc\<close> rounds the offset 0 up to a
  multiple of 16, which is 0, and returns the base itself: the call succeeds with the
  pointer 4097, which is not a multiple of 16. The stack, given the same buffer and the
  same request, rounds the address and returns 4112.
\<close>

theorem arena_alloc_aligned_misaligned_base:
  "arena_init \<lparr>arena_t.buffer = 0, arena_t.capacity = 0, arena_t.offset = 0,
               arena_t.initialized = False\<rparr> 4097 64
     = (True, \<lparr>arena_t.buffer = 4097, arena_t.capacity = 64, arena_t.offset = 0,
                arena_t.initialized = True\<rparr>)
   \<and> arena__is_power_of_two 16
   \<and> arena_alloc_aligned \<lparr>arena_t.buffer = 4097, arena_t.capacity = 64, arena_t.offset = 0,
                           arena_t.initialized = True\<rparr> 8 16
     = Some (4097, \<lparr>arena_t.buffer = 4097, arena_t.capacity = 64, arena_t.offset = 8,
                     arena_t.initialized = True\<rparr>)
   \<and> (4097 :: 64 word) \<noteq> NULL
   \<and> unat (4097 :: 64 word) mod 16 = 1
   \<and> stack_init \<lparr>stack_t.buffer = 0, stack_t.capacity = 0, stack_t.offset = 0\<rparr> 4097 64
     = (0, \<lparr>stack_t.buffer = 4097, stack_t.capacity = 64, stack_t.offset = 0\<rparr>)
   \<and> stack_alloc_aligned \<lparr>stack_t.buffer = 4097, stack_t.capacity = 64, stack_t.offset = 0\<rparr>
        (\<lambda>_. 0) 8 16
     = Some (4112, \<lparr>stack_t.buffer = 4097, stack_t.capacity = 64, stack_t.offset = 23\<rparr>,
             (\<lambda>_. 0)(4104 := 0))
   \<and> unat (4112 :: 64 word) mod 16 = 0"
  by (simp add: arena_init_def NULL_def arena_alloc_aligned_def arena__alloc_def
      arena__is_power_of_two_def arena__calc_aligned_offset_def arena__align_up_def
      stack_init_def stack_alloc_aligned_def STACK_MIN_ALIGNMENT_def STACK_HEADER_SIZE_def
      stack__is_power_of_two_def stack__get_header_def Let_def)

section \<open>Requests that cannot be served\<close>

lemma find_upt_None:
  "find P [0..<n] = None \<longleftrightarrow> (\<forall>i<n. \<not> P i)"
  by (auto simp add: find_None_iff)

lemma find_upt_Some:
  "find P [0..<n] = Some i \<longleftrightarrow> i < n \<and> P i \<and> (\<forall>j<i. \<not> P j)"
  by (auto simp add: find_Some_iff)

lemma unat_of_nat_index:
  fixes c :: "64 word"
  assumes "i < unat c"
  shows "unat (of_nat i :: 64 word) = i" and "(of_nat i :: 64 word) \<noteq> SLAB_NO_CLASS"
proof -
  have "unat c < 2 ^ 64" using unsigned_less [of c] by simp
  with assms have i: "i < 2 ^ 64" by simp
  then show u: "unat (of_nat i :: 64 word) = i"
    by (simp only: unat_of_nat len_of_numeral_defs) simp
  have "unat (- 1 :: 64 word) = 2 ^ 64 - 1"
    by (simp add: unsigned_minus_1_eq_mask mask_eq_exp_minus_1)
  with assms u \<open>unat c < 2 ^ 64\<close> show "(of_nat i :: 64 word) \<noteq> SLAB_NO_CLASS"
    unfolding SLAB_NO_CLASS_def by auto
qed

lemma slab__find_class_for_size_least:
  assumes "i < unat (slab_t.class_count slab)"
    and "slab_class_t.slot_size (classes slab ! i) \<ge> n"
    and "\<forall>j<i. slab_class_t.slot_size (classes slab ! j) < n"
  shows "slab__find_class_for_size slab n = of_nat i"
proof -
  have "find (\<lambda>i. slab_class_t.slot_size (classes slab ! i) \<ge> n)
          [0..<unat (slab_t.class_count slab)] = Some i"
    using assms by (simp add: find_upt_Some not_le)
  then show ?thesis by (simp add: slab__find_class_for_size_def)
qed

lemma slab__find_class_for_size_none:
  assumes "\<forall>i < unat (slab_t.class_count slab). slab_class_t.slot_size (classes slab ! i) < n"
  shows "slab__find_class_for_size slab n = SLAB_NO_CLASS"
proof -
  have "find (\<lambda>i. slab_class_t.slot_size (classes slab ! i) \<ge> n)
          [0..<unat (slab_t.class_count slab)] = None"
    using assms by (simp add: find_upt_None not_le)
  then show ?thesis by (simp add: slab__find_class_for_size_def)
qed

text \<open>
  C3. A request that cannot fit returns null and the descriptor (and the store) exactly as
  they were, hence every component and everything computed from them.
  \<^item> Arena, alignment \<open>2\<^sup>k\<close>: no offset at or after the watermark that is a multiple of
    the alignment leaves \<open>size\<close> bytes below the capacity.
  \<^item> Stack, alignment \<open>2\<^sup>k\<close> raised to at least 8: no address at or after the watermark
    plus one header word that is a multiple of the alignment leaves \<open>size\<close> bytes below the
    capacity.
  \<^item> Pool: the free list is empty.
  \<^item> Slab: no class has a slot size of at least \<open>n\<close>, or the first class that has one has
    an empty free list.
\<close>

theorem capacity_failure_leaves_state:
  assumes k: "k < 64"
  shows "(arena_t.initialized arena \<and> sz \<noteq> 0
            \<and> (\<forall>off. unat (arena_t.offset arena) \<le> off \<and> 2 ^ k dvd off
                  \<longrightarrow> unat (arena_t.capacity arena) < off + unat sz)
          \<longrightarrow> arena_alloc_aligned arena sz (2 ^ k) = Some (NULL, arena))
       \<and> (stack_valid stack \<and> sz \<noteq> 0
            \<and> (\<forall>addr. unat (stack_t.buffer stack) + unat (stack_t.offset stack) + 8 \<le> addr
                    \<and> 2 ^ max k 3 dvd addr
                  \<longrightarrow> unat (stack_t.capacity stack) < addr - unat (stack_t.buffer stack) + unat sz)
          \<longrightarrow> stack_alloc_aligned stack m sz (2 ^ k) = Some (NULL, stack, m))
       \<and> (pool_t.free_list pool = NULL \<longrightarrow> pool_alloc pool m = (NULL, pool))
       \<and> (slab_t.initialized slab = SLAB_MAGIC
            \<and> (\<forall>i < unat (slab_t.class_count slab).
                   slab_class_t.slot_size (classes slab ! i) < n)
          \<longrightarrow> slab_alloc slab m n = (NULL, slab))
       \<and> (slab_t.initialized slab = SLAB_MAGIC
            \<and> i < unat (slab_t.class_count slab)
            \<and> slab_class_t.slot_size (classes slab ! i) \<ge> n
            \<and> (\<forall>j<i. slab_class_t.slot_size (classes slab ! j) < n)
            \<and> slab_class_t.free_list (classes slab ! i) = NULL
          \<longrightarrow> slab_alloc slab m n = (NULL, slab))"
proof (intro conjI impI)
  assume h: "arena_t.initialized arena \<and> sz \<noteq> 0
      \<and> (\<forall>off. unat (arena_t.offset arena) \<le> off \<and> 2 ^ k dvd off
            \<longrightarrow> unat (arena_t.capacity arena) < off + unat sz)"
  have "arena__calc_aligned_offset (arena_t.offset arena) (2 ^ k) sz (arena_t.capacity arena)
          = None"
  proof (rule ccontr)
    assume "\<not> ?thesis"
    then obtain al pad where "arena__calc_aligned_offset (arena_t.offset arena) (2 ^ k) sz
        (arena_t.capacity arena) = Some (al, pad)"
      by auto
    from arena__calc_aligned_offset_success [OF k this] h show False
      by (metis not_less)
  qed
  with h show "arena_alloc_aligned arena sz (2 ^ k) = Some (NULL, arena)"
    using arena__is_power_of_two_exp [OF k]
    by (simp add: arena_alloc_aligned_def arena__alloc_def)
next
  assume h: "stack_valid stack \<and> sz \<noteq> 0
      \<and> (\<forall>addr. unat (stack_t.buffer stack) + unat (stack_t.offset stack) + 8 \<le> addr
              \<and> 2 ^ max k 3 dvd addr
            \<longrightarrow> unat (stack_t.capacity stack) < addr - unat (stack_t.buffer stack) + unat sz)"
  then have sv: "stack_valid stack" by simp
  have nn: "stack_alloc_aligned stack m sz (2 ^ k) \<noteq> None"
    using sv k by (rule stack_alloc_aligned_total)
  then obtain p stack' m' where a: "stack_alloc_aligned stack m sz (2 ^ k) = Some (p, stack', m')"
    by auto
  have "p = NULL"
  proof (rule ccontr)
    assume "p \<noteq> NULL"
    from stack_alloc_aligned_success [OF sv k a \<open>p \<noteq> NULL\<close>]
    obtain uo where "p = stack_t.buffer stack + uo
         \<and> unat p = unat (stack_t.buffer stack) + unat uo
         \<and> unat (stack_t.offset stack) + 8 \<le> unat uo
         \<and> unat uo + unat sz \<le> unat (stack_t.capacity stack)
         \<and> sz \<noteq> 0
         \<and> stack' = stack\<lparr>stack_t.offset := uo + sz\<rparr>
         \<and> m' = m(stack__get_header p := stack_t.offset stack)
         \<and> 2 ^ max k 3 dvd unat p" ..
    then have u: "unat p = unat (stack_t.buffer stack) + unat uo"
      "unat (stack_t.offset stack) + 8 \<le> unat uo"
      "unat uo + unat sz \<le> unat (stack_t.capacity stack)"
      "2 ^ max k 3 dvd unat p"
      by blast+
    have "unat (stack_t.capacity stack) < unat p - unat (stack_t.buffer stack) + unat sz"
      using h u by (metis add_le_cancel_left add.assoc)
    with u show False by simp
  qed
  with a stack_alloc_aligned_null [OF sv k, of m sz stack' m']
  show "stack_alloc_aligned stack m sz (2 ^ k) = Some (NULL, stack, m)"
    by simp
next
  assume "pool_t.free_list pool = NULL"
  then show "pool_alloc pool m = (NULL, pool)"
    by (simp add: pool_alloc_def)
next
  assume "slab_t.initialized slab = SLAB_MAGIC
      \<and> (\<forall>i < unat (slab_t.class_count slab). slab_class_t.slot_size (classes slab ! i) < n)"
  then show "slab_alloc slab m n = (NULL, slab)"
    using slab__find_class_for_size_none [of slab n]
    by (simp add: slab_alloc_def)
next
  assume h: "slab_t.initialized slab = SLAB_MAGIC
      \<and> i < unat (slab_t.class_count slab)
      \<and> slab_class_t.slot_size (classes slab ! i) \<ge> n
      \<and> (\<forall>j<i. slab_class_t.slot_size (classes slab ! j) < n)
      \<and> slab_class_t.free_list (classes slab ! i) = NULL"
  then have "slab__find_class_for_size slab n = of_nat i"
    using slab__find_class_for_size_least [of i slab n] by simp
  with h show "slab_alloc slab m n = (NULL, slab)"
    using unat_of_nat_index [of i "slab_t.class_count slab"]
    by (simp add: slab_alloc_def Let_def)
qed

theorem capacity_failure_leaves_state_witness:
  "arena_alloc_aligned \<lparr>arena_t.buffer = 4096, arena_t.capacity = 64, arena_t.offset = 60,
                         arena_t.initialized = True\<rparr> 8 (2 ^ 4)
     = Some (NULL, \<lparr>arena_t.buffer = 4096, arena_t.capacity = 64, arena_t.offset = 60,
                     arena_t.initialized = True\<rparr>)
   \<and> stack_alloc_aligned \<lparr>stack_t.buffer = 4096, stack_t.capacity = 64, stack_t.offset = 56\<rparr>
        (\<lambda>_. 0) 8 (2 ^ 3)
     = Some (NULL, \<lparr>stack_t.buffer = 4096, stack_t.capacity = 64, stack_t.offset = 56\<rparr>,
             \<lambda>_. 0)
   \<and> pool_alloc \<lparr>pool_t.buffer = 4096, buffer_end = 4128, pool_t.free_list = 0,
                  pool_t.slot_size = 16, pool_t.slot_count = 2, pool_t.free_count = 0\<rparr>
        (\<lambda>_. 0)
     = (NULL, \<lparr>pool_t.buffer = 4096, buffer_end = 4128, pool_t.free_list = 0,
               pool_t.slot_size = 16, pool_t.slot_count = 2, pool_t.free_count = 0\<rparr>)
   \<and> slab_alloc
        \<lparr>slab_t.buffer = 4096, aligned_start = 4096, slab_t.capacity = 1024,
         slab_t.usable_capacity = 1024,
         classes =
           [\<lparr>slab_class_t.slot_size = 64, slab_class_t.free_list = 0, region_start = 4096,
             region_end = 4608, slab_class_t.slot_count = 8, slab_class_t.free_count = 0\<rparr>,
            \<lparr>slab_class_t.slot_size = 256, slab_class_t.free_list = 4608, region_start = 4608,
             region_end = 5120, slab_class_t.slot_count = 2, slab_class_t.free_count = 2\<rparr>]
           @ replicate 14 slab_class_zero,
         slab_t.class_count = 2, slab_t.initialized = SLAB_MAGIC\<rparr> (\<lambda>_. 0) 300
     = (NULL,
        \<lparr>slab_t.buffer = 4096, aligned_start = 4096, slab_t.capacity = 1024,
         slab_t.usable_capacity = 1024,
         classes =
           [\<lparr>slab_class_t.slot_size = 64, slab_class_t.free_list = 0, region_start = 4096,
             region_end = 4608, slab_class_t.slot_count = 8, slab_class_t.free_count = 0\<rparr>,
            \<lparr>slab_class_t.slot_size = 256, slab_class_t.free_list = 4608, region_start = 4608,
             region_end = 5120, slab_class_t.slot_count = 2, slab_class_t.free_count = 2\<rparr>]
           @ replicate 14 slab_class_zero,
         slab_t.class_count = 2, slab_t.initialized = SLAB_MAGIC\<rparr>)
   \<and> slab_alloc
        \<lparr>slab_t.buffer = 4096, aligned_start = 4096, slab_t.capacity = 1024,
         slab_t.usable_capacity = 1024,
         classes =
           [\<lparr>slab_class_t.slot_size = 64, slab_class_t.free_list = 0, region_start = 4096,
             region_end = 4608, slab_class_t.slot_count = 8, slab_class_t.free_count = 0\<rparr>,
            \<lparr>slab_class_t.slot_size = 256, slab_class_t.free_list = 4608, region_start = 4608,
             region_end = 5120, slab_class_t.slot_count = 2, slab_class_t.free_count = 2\<rparr>]
           @ replicate 14 slab_class_zero,
         slab_t.class_count = 2, slab_t.initialized = SLAB_MAGIC\<rparr> (\<lambda>_. 0) 50
     = (NULL,
        \<lparr>slab_t.buffer = 4096, aligned_start = 4096, slab_t.capacity = 1024,
         slab_t.usable_capacity = 1024,
         classes =
           [\<lparr>slab_class_t.slot_size = 64, slab_class_t.free_list = 0, region_start = 4096,
             region_end = 4608, slab_class_t.slot_count = 8, slab_class_t.free_count = 0\<rparr>,
            \<lparr>slab_class_t.slot_size = 256, slab_class_t.free_list = 4608, region_start = 4608,
             region_end = 5120, slab_class_t.slot_count = 2, slab_class_t.free_count = 2\<rparr>]
           @ replicate 14 slab_class_zero,
         slab_t.class_count = 2, slab_t.initialized = SLAB_MAGIC\<rparr>)"
proof -
  define A where "A = \<lparr>arena_t.buffer = 4096, arena_t.capacity = 64, arena_t.offset = 60,
                         arena_t.initialized = True\<rparr>"
  define S where "S = \<lparr>stack_t.buffer = 4096, stack_t.capacity = 64, stack_t.offset = 56\<rparr>"
  define P where "P = \<lparr>pool_t.buffer = 4096, buffer_end = 4128, pool_t.free_list = 0,
                  pool_t.slot_size = 16, pool_t.slot_count = 2, pool_t.free_count = 0\<rparr>"
  define L where "L = \<lparr>slab_t.buffer = 4096, aligned_start = 4096, slab_t.capacity = 1024,
         slab_t.usable_capacity = 1024,
         classes =
           [\<lparr>slab_class_t.slot_size = 64, slab_class_t.free_list = 0, region_start = 4096,
             region_end = 4608, slab_class_t.slot_count = 8, slab_class_t.free_count = 0\<rparr>,
            \<lparr>slab_class_t.slot_size = 256, slab_class_t.free_list = 4608, region_start = 4608,
             region_end = 5120, slab_class_t.slot_count = 2, slab_class_t.free_count = 2\<rparr>]
           @ replicate 14 slab_class_zero,
         slab_t.class_count = 2, slab_t.initialized = SLAB_MAGIC\<rparr>"
  have k4: "(4::nat) < 64" and k3: "(3::nat) < 64" by simp_all
  have a: "arena_t.initialized A \<and> (8 :: 64 word) \<noteq> 0
      \<and> (\<forall>off. unat (arena_t.offset A) \<le> off \<and> 2 ^ 4 dvd off
            \<longrightarrow> unat (arena_t.capacity A) < off + unat (8 :: 64 word))"
    by (simp add: A_def)
  have s: "stack_valid S \<and> (8 :: 64 word) \<noteq> 0
      \<and> (\<forall>addr. unat (stack_t.buffer S) + unat (stack_t.offset S) + 8 \<le> addr
              \<and> 2 ^ max 3 3 dvd addr
            \<longrightarrow> unat (stack_t.capacity S) < addr - unat (stack_t.buffer S)
                  + unat (8 :: 64 word))"
    by (auto simp add: S_def stack_valid_def NULL_def)
  have p: "pool_t.free_list P = NULL"
    by (simp add: P_def NULL_def)
  have two: "\<And>i. i < unat (slab_t.class_count L) \<longleftrightarrow> i = 0 \<or> i = 1"
    by (auto simp add: L_def)
  have l1: "slab_t.initialized L = SLAB_MAGIC
      \<and> (\<forall>i < unat (slab_t.class_count L). slab_class_t.slot_size (classes L ! i) < 300)"
    unfolding two by (simp add: L_def)
  have l2: "slab_t.initialized L = SLAB_MAGIC
      \<and> 0 < unat (slab_t.class_count L)
      \<and> slab_class_t.slot_size (classes L ! 0) \<ge> 50
      \<and> (\<forall>j<0. slab_class_t.slot_size (classes L ! j) < 50)
      \<and> slab_class_t.free_list (classes L ! 0) = NULL"
    by (simp add: L_def NULL_def)
  show ?thesis
    using capacity_failure_leaves_state [OF k4, where arena = A and sz = 8] a
      capacity_failure_leaves_state [OF k3, where stack = S and sz = 8 and m = "\<lambda>_. 0"] s
      capacity_failure_leaves_state [OF k3, where pool = P and m = "\<lambda>_. 0"] p
      capacity_failure_leaves_state [OF k3, where slab = L and n = 300 and m = "\<lambda>_. 0"] l1
      capacity_failure_leaves_state [OF k3, where slab = L and n = 50 and i = 0
        and m = "\<lambda>_. 0"] l2
    unfolding A_def [symmetric] S_def [symmetric] P_def [symmetric] L_def [symmetric]
    by blast
qed

section \<open>Reuse of the last freed pool slot\<close>

text \<open>
  C9. After a \<^verbatim>\<open>pool_free(pool, p)\<close> that returned \<^verbatim>\<open>POOL_OK\<close>, in any state of the pool
  whatever, the next \<^verbatim>\<open>pool_alloc\<close> returns \<open>p\<close> (and puts the descriptor back to what it
  was before the free).
\<close>

theorem pool_free_then_alloc:
  assumes "pool_free pool m p = (POOL_OK, pool', m')"
  shows "pool_alloc pool' m' = (p, pool) \<and> p \<noteq> NULL"
proof -
  have p: "p \<noteq> NULL" and o: "pool_owns pool p"
    using assms by (auto simp add: pool_free_def split: if_splits)
  then have r: "pool' = pool\<lparr>pool_t.free_list := p,
        pool_t.free_count := pool_t.free_count pool + 1\<rparr>"
    "m' = m(p := pool_t.free_list pool)"
    using assms by (simp_all add: pool_free_def)
  show ?thesis
    using p by (simp add: r pool_alloc_def)
qed

theorem pool_free_then_alloc_witness:
  "pool_free \<lparr>pool_t.buffer = 4096, buffer_end = 4128, pool_t.free_list = 0,
              pool_t.slot_size = 16, pool_t.slot_count = 2, pool_t.free_count = 0\<rparr>
      (\<lambda>_. 0) 4112
     = (POOL_OK,
        \<lparr>pool_t.buffer = 4096, buffer_end = 4128, pool_t.free_list = 4112,
         pool_t.slot_size = 16, pool_t.slot_count = 2, pool_t.free_count = 1\<rparr>,
        (\<lambda>_. 0)(4112 := 0))
   \<and> pool_alloc \<lparr>pool_t.buffer = 4096, buffer_end = 4128, pool_t.free_list = 4112,
                  pool_t.slot_size = 16, pool_t.slot_count = 2, pool_t.free_count = 1\<rparr>
        ((\<lambda>_. 0)(4112 := 0))
     = (4112, \<lparr>pool_t.buffer = 4096, buffer_end = 4128, pool_t.free_list = 0,
               pool_t.slot_size = 16, pool_t.slot_count = 2, pool_t.free_count = 0\<rparr>)"
proof -
  have f: "pool_free \<lparr>pool_t.buffer = 4096, buffer_end = 4128, pool_t.free_list = 0,
              pool_t.slot_size = 16, pool_t.slot_count = 2, pool_t.free_count = 0\<rparr>
      (\<lambda>_. 0) 4112
     = (POOL_OK,
        \<lparr>pool_t.buffer = 4096, buffer_end = 4128, pool_t.free_list = 4112,
         pool_t.slot_size = 16, pool_t.slot_count = 2, pool_t.free_count = 1\<rparr>,
        (\<lambda>_. 0)(4112 := 0))"
    by (simp add: pool_free_def pool_owns_def NULL_def Let_def)
  from pool_free_then_alloc [OF f] f show ?thesis by simp
qed

lemma stack_alloc_aligned_raise:
  assumes "sz = 0 \<or> a < STACK_MIN_ALIGNMENT"
  shows "stack_alloc_aligned stack m sz a = stack_alloc_aligned stack m sz STACK_MIN_ALIGNMENT"
proof (cases "sz = 0")
  case True
  then show ?thesis by (simp add: stack_alloc_aligned_def)
next
  case False
  with assms have "a < STACK_MIN_ALIGNMENT" by simp
  then show ?thesis by (simp add: stack_alloc_aligned_def)
qed

lemma stack_alloc_aligned_pow2:
  assumes "stack_alloc_aligned stack m sz a \<noteq> None"
  shows "\<exists>k<64. stack_alloc_aligned stack m sz a = stack_alloc_aligned stack m sz (2 ^ k)"
proof (cases "sz = 0 \<or> a < STACK_MIN_ALIGNMENT")
  case True
  then have "stack_alloc_aligned stack m sz a = stack_alloc_aligned stack m sz (2 ^ 3)"
    using stack_alloc_aligned_raise [of sz a stack m] by (simp add: STACK_MIN_ALIGNMENT_def)
  then show ?thesis by (intro exI [of _ 3]) simp
next
  case False
  with assms have "stack__is_power_of_two a"
    by (simp add: stack_alloc_aligned_def Let_def split: if_splits)
  then obtain k where "k < 64" "a = 2 ^ k"
    using word_and_pred_zero [of a] by (auto simp add: stack__is_power_of_two_def)
  then show ?thesis by blast
qed

section \<open>Disjoint byte ranges\<close>

lemma unat_add_of_nat:
  fixes o1 :: "64 word"
  assumes "unat o1 + i < 2 ^ 64"
  shows "unat (o1 + of_nat i) = unat o1 + i"
proof -
  have "i < 2 ^ 64" using assms by simp
  then have "unat (of_nat i :: 64 word) = i"
    by (simp only: unat_of_nat len_of_numeral_defs) simp
  with assms show ?thesis
    by (simp add: unat_plus_if')
qed

lemma byte_range_disjoint:
  fixes b :: "64 word"
  assumes "unat o1 + unat n1 \<le> unat o2" and "unat o2 + unat n2 \<le> 2 ^ 64"
  shows "byte_range (b + o1) n1 \<inter> byte_range (b + o2) n2 = {}"
proof (rule ccontr)
  assume "\<not> ?thesis"
  then obtain i j where i: "i < unat n1" and j: "j < unat n2"
    and e: "b + o1 + of_nat i = b + o2 + of_nat j"
    by (auto simp add: byte_range_def)
  from e have "o1 + of_nat i = o2 + of_nat j"
    by (simp add: add.assoc)
  then have "unat (o1 + of_nat i) = unat (o2 + of_nat j)" by simp
  moreover have "unat (o1 + of_nat i) = unat o1 + i"
    using assms i j by (intro unat_add_of_nat) simp
  moreover have "unat (o2 + of_nat j) = unat o2 + j"
    using assms i j by (intro unat_add_of_nat) simp
  ultimately show False using assms i by simp
qed

text \<open>
  A list of results lies in \<open>[lo, hi)\<close> relative to the base \<open>b\<close> when every successful
  non-empty allocation in it is \<open>b + off\<close> with \<open>lo \<le> off\<close> and \<open>off + size \<le> hi\<close>.
\<close>

lemma no_overlap_Nil: "no_overlap []"
  by (simp add: no_overlap_def)

lemma no_overlap_Cons:
  assumes "no_overlap rs"
    and "\<And>q n'. (q, n') \<in> set rs \<Longrightarrow> p \<noteq> NULL \<Longrightarrow> n \<noteq> 0 \<Longrightarrow> q \<noteq> NULL \<Longrightarrow> n' \<noteq> 0
           \<Longrightarrow> byte_range p n \<inter> byte_range q n' = {}"
  shows "no_overlap ((p, n) # rs)"
  unfolding no_overlap_def
proof (intro allI impI)
  fix i j
  assume h: "i < j \<and> j < length ((p, n) # rs)
      \<and> fst (((p, n) # rs) ! i) \<noteq> NULL \<and> fst (((p, n) # rs) ! j) \<noteq> NULL
      \<and> snd (((p, n) # rs) ! i) \<noteq> 0 \<and> snd (((p, n) # rs) ! j) \<noteq> 0"
  then obtain j' where j': "j = Suc j'" "j' < length rs"
    by (cases j) auto
  show "byte_range (fst (((p, n) # rs) ! i)) (snd (((p, n) # rs) ! i))
          \<inter> byte_range (fst (((p, n) # rs) ! j)) (snd (((p, n) # rs) ! j)) = {}"
  proof (cases i)
    case 0
    have "(fst (rs ! j'), snd (rs ! j')) \<in> set rs"
      using j' by simp
    then show ?thesis
      using assms(2) [of "fst (rs ! j')" "snd (rs ! j')"] h 0 j' by simp
  next
    case (Suc i')
    then show ?thesis
      using assms(1) h j' unfolding no_overlap_def by auto
  qed
qed


section \<open>Arena allocations do not overlap\<close>

lemma arena__calc_aligned_offset_bounds:
  assumes c: "arena__calc_aligned_offset off a sz cap = Some (al, pad)"
  shows "unat off \<le> unat al \<and> unat al + unat sz \<le> unat cap"
proof -
  define r where "r = arena__align_up off a"
  have ok: "\<not> r < off" "\<not> r > cap" "\<not> sz > cap - r" and al: "al = r"
    using c by (auto simp add: arena__calc_aligned_offset_def Let_def r_def split: if_splits)
  have "r \<le> cap" using ok(2) by simp
  then have "unat (cap - r) = unat cap - unat r" by (rule unat_sub)
  moreover have "unat sz \<le> unat (cap - r)" using ok(3) by (simp add: word_le_nat_alt not_less)
  moreover have "unat r \<le> unat cap" using \<open>r \<le> cap\<close> by (simp add: word_le_nat_alt)
  moreover have "unat off \<le> unat r" using ok(1) by (simp add: word_le_nat_alt not_less)
  ultimately show ?thesis unfolding al by simp
qed

lemma arena__alloc_cases:
  assumes "arena__alloc arena sz a = Some (p, arena')"
  shows "(arena' = arena \<and> (sz = 0 \<or> p = NULL))
       \<or> (sz \<noteq> 0 \<and> (\<exists>al. p = arena_t.buffer arena + al
              \<and> unat (arena_t.offset arena) \<le> unat al
              \<and> unat al + unat sz \<le> unat (arena_t.capacity arena)
              \<and> unat (al + sz) = unat al + unat sz
              \<and> arena' = arena\<lparr>arena_t.offset := al + sz\<rparr>))"
proof (cases "sz = 0")
  case True
  with assms show ?thesis
    by (auto simp add: arena__alloc_def split: if_splits)
next
  case False
  show ?thesis
  proof (cases "arena__calc_aligned_offset (arena_t.offset arena) a sz (arena_t.capacity arena)")
    case None
    with assms False show ?thesis
      by (auto simp add: arena__alloc_def split: if_splits)
  next
    case (Some r)
    obtain al pad where r: "r = (al, pad)" by (cases r)
    have b: "unat (arena_t.offset arena) \<le> unat al"
      "unat al + unat sz \<le> unat (arena_t.capacity arena)"
      using arena__calc_aligned_offset_bounds [OF Some [unfolded r]] by simp_all
    have "unat (arena_t.capacity arena) < 2 ^ 64"
      using unsigned_less [of "arena_t.capacity arena"] by simp
    with b have "unat (al + sz) = unat al + unat sz"
      by (simp add: unat_plus_if')
    moreover have "p = arena_t.buffer arena + al" "arena' = arena\<lparr>arena_t.offset := al + sz\<rparr>"
      using assms False Some r by (auto simp add: arena__alloc_def split: if_splits)
    ultimately show ?thesis using False b by blast
  qed
qed

lemma arena_allocs_within:
  assumes "arena_allocs arena reqs = Some (rs, arena')"
  shows "arena_t.buffer arena' = arena_t.buffer arena
       \<and> arena_t.capacity arena' = arena_t.capacity arena
       \<and> (\<forall>q n. (q, n) \<in> set rs \<and> q \<noteq> NULL \<and> n \<noteq> 0
            \<longrightarrow> (\<exists>off. q = arena_t.buffer arena + off
                   \<and> unat (arena_t.offset arena) \<le> unat off
                   \<and> unat off + unat n \<le> unat (arena_t.capacity arena)))"
  using assms
proof (induction reqs arbitrary: arena rs)
  case Nil
  then show ?case by simp
next
  case (Cons req reqs)
  obtain sz a where req: "req = (sz, a)" by (cases req)
  from Cons.prems obtain p arena1 rs1 where
    a: "arena__alloc arena sz a = Some (p, arena1)"
    and r: "arena_allocs arena1 reqs = Some (rs1, arena')"
    and rs: "rs = (p, sz) # rs1"
    by (auto simp add: req split: option.splits)
  note ih = Cons.IH [OF r]
  from arena__alloc_cases [OF a]
  have st: "arena_t.buffer arena1 = arena_t.buffer arena"
    "arena_t.capacity arena1 = arena_t.capacity arena"
    "unat (arena_t.offset arena) \<le> unat (arena_t.offset arena1)"
    by auto
  have hd: "p \<noteq> NULL \<and> sz \<noteq> 0 \<longrightarrow> (\<exists>off. p = arena_t.buffer arena + off
                   \<and> unat (arena_t.offset arena) \<le> unat off
                   \<and> unat off + unat sz \<le> unat (arena_t.capacity arena))"
    using arena__alloc_cases [OF a] by auto
  show ?case
  proof (intro conjI allI impI)
    show "arena_t.buffer arena' = arena_t.buffer arena"
      using ih st by simp
    show "arena_t.capacity arena' = arena_t.capacity arena"
      using ih st by simp
    fix q n
    assume h: "(q, n) \<in> set rs \<and> q \<noteq> NULL \<and> n \<noteq> 0"
    show "\<exists>off. q = arena_t.buffer arena + off
            \<and> unat (arena_t.offset arena) \<le> unat off
            \<and> unat off + unat n \<le> unat (arena_t.capacity arena)"
    proof (cases "(q, n) = (p, sz)")
      case True
      with h hd show ?thesis by auto
    next
      case False
      with h rs have "(q, n) \<in> set rs1" by auto
      with h ih obtain off where "q = arena_t.buffer arena1 + off"
        "unat (arena_t.offset arena1) \<le> unat off"
        "unat off + unat n \<le> unat (arena_t.capacity arena1)"
        by blast
      with st show ?thesis
        by (intro exI [of _ off]) simp
    qed
  qed
qed

lemma arena_allocs_no_overlap:
  assumes "arena_allocs arena reqs = Some (rs, arena')"
  shows "no_overlap rs"
  using assms
proof (induction reqs arbitrary: arena rs)
  case Nil
  then show ?case by (simp add: no_overlap_Nil)
next
  case (Cons req reqs)
  obtain sz a where req: "req = (sz, a)" by (cases req)
  from Cons.prems obtain p arena1 rs1 where
    a: "arena__alloc arena sz a = Some (p, arena1)"
    and r: "arena_allocs arena1 reqs = Some (rs1, arena')"
    and rs: "rs = (p, sz) # rs1"
    by (auto simp add: req split: option.splits)
  have "no_overlap ((p, sz) # rs1)"
  proof (rule no_overlap_Cons)
    show "no_overlap rs1" using Cons.IH [OF r] .
  next
    fix q n
    assume q: "(q, n) \<in> set rs1" "q \<noteq> NULL" "n \<noteq> 0" and p: "p \<noteq> NULL" "sz \<noteq> 0"
    from arena__alloc_cases [OF a] p obtain al where
      al: "p = arena_t.buffer arena + al" "unat (al + sz) = unat al + unat sz"
        "arena1 = arena\<lparr>arena_t.offset := al + sz\<rparr>"
      by auto
    from arena_allocs_within [OF r] q obtain off where
      off: "q = arena_t.buffer arena1 + off" "unat (arena_t.offset arena1) \<le> unat off"
        "unat off + unat n \<le> unat (arena_t.capacity arena1)"
      by blast
    have "unat (arena_t.capacity arena1) < 2 ^ 64"
      using unsigned_less [of "arena_t.capacity arena1"] by simp
    with off have 2: "unat off + unat n \<le> 2 ^ 64" by simp
    have 1: "unat al + unat sz \<le> unat off"
      using off(2) al by simp
    have "byte_range (arena_t.buffer arena + al) sz \<inter> byte_range (arena_t.buffer arena + off) n
            = {}"
      using 1 2 by (rule byte_range_disjoint)
    then show "byte_range p sz \<inter> byte_range q n = {}"
      using al off by simp
  qed
  then show ?case by (simp add: rs)
qed

section \<open>Stack allocations do not overlap, and LIFO frees undo them\<close>

text \<open>
  One step of \<^verbatim>\<open>stack_alloc_aligned\<close> on a valid stack, for any alignment argument that
  passes the assertion.
\<close>

lemma stack_alloc_aligned_step:
  assumes v: "stack_valid stack"
    and a: "stack_alloc_aligned stack m sz al = Some (p, stack', m')"
  shows "(p = NULL \<and> stack' = stack \<and> m' = m)
       \<or> (p \<noteq> NULL \<and> sz \<noteq> 0
           \<and> (\<exists>uo. p = stack_t.buffer stack + uo
                  \<and> unat p = unat (stack_t.buffer stack) + unat uo
                  \<and> unat (stack_t.offset stack) + 8 \<le> unat uo
                  \<and> unat uo + unat sz \<le> unat (stack_t.capacity stack)
                  \<and> unat (uo + sz) = unat uo + unat sz
                  \<and> stack' = stack\<lparr>stack_t.offset := uo + sz\<rparr>
                  \<and> m' = m(stack__get_header p := stack_t.offset stack)))"
proof -
  from a obtain k where k: "k < 64"
    and e: "stack_alloc_aligned stack m sz al = stack_alloc_aligned stack m sz (2 ^ k)"
    using stack_alloc_aligned_pow2 [of stack m sz al] by auto
  note a' = a [unfolded e]
  show ?thesis
  proof (cases "p = NULL")
    case True
    with stack_alloc_aligned_null [OF v k, of m sz stack' m'] a' show ?thesis by simp
  next
    case False
    from stack_alloc_aligned_success [OF v k a' False]
    obtain uo where u: "p = stack_t.buffer stack + uo
           \<and> unat p = unat (stack_t.buffer stack) + unat uo
           \<and> unat (stack_t.offset stack) + 8 \<le> unat uo
           \<and> unat uo + unat sz \<le> unat (stack_t.capacity stack)
           \<and> sz \<noteq> 0
           \<and> stack' = stack\<lparr>stack_t.offset := uo + sz\<rparr>
           \<and> m' = m(stack__get_header p := stack_t.offset stack)
           \<and> 2 ^ max k 3 dvd unat p" ..
    have "unat (stack_t.capacity stack) < 2 ^ 64"
      using unsigned_less [of "stack_t.capacity stack"] by simp
    with u have "unat (uo + sz) = unat uo + unat sz"
      by (simp add: unat_plus_if')
    with u False show ?thesis by blast
  qed
qed

lemma stack_alloc_aligned_valid:
  assumes v: "stack_valid stack"
    and a: "stack_alloc_aligned stack m sz al = Some (p, stack', m')"
  shows "stack_valid stack'
       \<and> stack_t.buffer stack' = stack_t.buffer stack
       \<and> stack_t.capacity stack' = stack_t.capacity stack
       \<and> unat (stack_t.offset stack) \<le> unat (stack_t.offset stack')"
  using stack_alloc_aligned_step [OF v a] v
  by (auto simp add: stack_valid_def word_le_nat_alt)

text \<open>The header of a block lies at or above the old watermark.\<close>

lemma stack_alloc_aligned_frame:
  assumes v: "stack_valid stack"
    and a: "stack_alloc_aligned stack m sz al = Some (p, stack', m')"
    and x: "unat x < unat (stack_t.buffer stack) + unat (stack_t.offset stack)"
  shows "m' x = m x"
proof (cases "p = NULL")
  case True
  with stack_alloc_aligned_step [OF v a] show ?thesis by simp
next
  case False
  with stack_alloc_aligned_step [OF v a] obtain uo :: "64 word" where
    u: "unat p = unat (stack_t.buffer stack) + unat uo"
      "unat (stack_t.offset stack) + 8 \<le> unat uo"
      "m' = m(stack__get_header p := stack_t.offset stack)"
    by auto
  have "unat (8 :: 64 word) \<le> unat p" using u by simp
  then have "(8 :: 64 word) \<le> p" by (simp only: word_le_nat_alt)
  then have "unat (p - 8) = unat p - unat (8 :: 64 word)" by (rule unat_sub)
  with u x have "unat x < unat (p - 8)" by simp
  then have "x \<noteq> stack__get_header p"
    by (auto simp add: stack__get_header_def STACK_HEADER_SIZE_def)
  with u show ?thesis by simp
qed

lemma stack_allocs_within:
  assumes "stack_valid stack" and "stack_allocs stack m reqs = Some (rs, stack', m')"
  shows "stack_valid stack'
       \<and> stack_t.buffer stack' = stack_t.buffer stack
       \<and> stack_t.capacity stack' = stack_t.capacity stack
       \<and> unat (stack_t.offset stack) \<le> unat (stack_t.offset stack')
       \<and> (\<forall>x. unat x < unat (stack_t.buffer stack) + unat (stack_t.offset stack)
              \<longrightarrow> m' x = m x)
       \<and> (\<forall>q n. (q, n) \<in> set rs \<and> q \<noteq> NULL \<and> n \<noteq> 0
            \<longrightarrow> (\<exists>off. q = stack_t.buffer stack + off
                   \<and> unat (stack_t.offset stack) \<le> unat off
                   \<and> unat off + unat n \<le> unat (stack_t.capacity stack)))"
  using assms
proof (induction reqs arbitrary: stack m rs)
  case Nil
  then show ?case by simp
next
  case (Cons req reqs)
  obtain sz a where req: "req = (sz, a)" by (cases req)
  from Cons.prems(2) obtain p stack1 m1 rs1 where
    a: "stack_alloc_aligned stack m sz a = Some (p, stack1, m1)"
    and r: "stack_allocs stack1 m1 reqs = Some (rs1, stack', m')"
    and rs: "rs = (p, sz) # rs1"
    by (auto simp add: req split: option.splits)
  note v = Cons.prems(1)
  note st = stack_alloc_aligned_valid [OF v a]
  then have v1: "stack_valid stack1" by simp
  note ih = Cons.IH [OF v1 r]
  have hd: "p \<noteq> NULL \<and> sz \<noteq> 0 \<longrightarrow> (\<exists>off. p = stack_t.buffer stack + off
                   \<and> unat (stack_t.offset stack) \<le> unat off
                   \<and> unat off + unat sz \<le> unat (stack_t.capacity stack))"
  proof
    assume "p \<noteq> NULL \<and> sz \<noteq> 0"
    with stack_alloc_aligned_step [OF v a] obtain uo where
      "p = stack_t.buffer stack + uo" "unat (stack_t.offset stack) + 8 \<le> unat uo"
      "unat uo + unat sz \<le> unat (stack_t.capacity stack)"
      by auto
    then show "\<exists>off. p = stack_t.buffer stack + off
                   \<and> unat (stack_t.offset stack) \<le> unat off
                   \<and> unat off + unat sz \<le> unat (stack_t.capacity stack)"
      by (intro exI [of _ uo]) simp
  qed
  show ?case
  proof (intro conjI allI impI)
    show "stack_valid stack'" using ih by simp
    show "stack_t.buffer stack' = stack_t.buffer stack" using ih st by simp
    show "stack_t.capacity stack' = stack_t.capacity stack" using ih st by simp
    show "unat (stack_t.offset stack) \<le> unat (stack_t.offset stack')" using ih st by simp
  next
    fix x :: "64 word"
    assume x: "unat x < unat (stack_t.buffer stack) + unat (stack_t.offset stack)"
    then have "m1 x = m x" using stack_alloc_aligned_frame [OF v a] by simp
    moreover have "m' x = m1 x" using ih st x by simp
    ultimately show "m' x = m x" by simp
  next
    fix q n
    assume h: "(q, n) \<in> set rs \<and> q \<noteq> NULL \<and> n \<noteq> 0"
    show "\<exists>off. q = stack_t.buffer stack + off
            \<and> unat (stack_t.offset stack) \<le> unat off
            \<and> unat off + unat n \<le> unat (stack_t.capacity stack)"
    proof (cases "(q, n) = (p, sz)")
      case True
      with h hd show ?thesis by auto
    next
      case False
      with h rs have "(q, n) \<in> set rs1" by auto
      with h ih obtain off where "q = stack_t.buffer stack1 + off"
        "unat (stack_t.offset stack1) \<le> unat off"
        "unat off + unat n \<le> unat (stack_t.capacity stack1)"
        by blast
      with st show ?thesis
        by (intro exI [of _ off]) simp
    qed
  qed
qed

lemma stack_allocs_no_overlap:
  assumes "stack_valid stack" and "stack_allocs stack m reqs = Some (rs, stack', m')"
  shows "no_overlap rs"
  using assms
proof (induction reqs arbitrary: stack m rs)
  case Nil
  then show ?case by (simp add: no_overlap_Nil)
next
  case (Cons req reqs)
  obtain sz a where req: "req = (sz, a)" by (cases req)
  from Cons.prems(2) obtain p stack1 m1 rs1 where
    a: "stack_alloc_aligned stack m sz a = Some (p, stack1, m1)"
    and r: "stack_allocs stack1 m1 reqs = Some (rs1, stack', m')"
    and rs: "rs = (p, sz) # rs1"
    by (auto simp add: req split: option.splits)
  note v = Cons.prems(1)
  note st = stack_alloc_aligned_valid [OF v a]
  then have v1: "stack_valid stack1" by simp
  have "no_overlap ((p, sz) # rs1)"
  proof (rule no_overlap_Cons)
    show "no_overlap rs1" using Cons.IH [OF v1 r] .
  next
    fix q n
    assume q: "(q, n) \<in> set rs1" "q \<noteq> NULL" "n \<noteq> 0" and p: "p \<noteq> NULL" "sz \<noteq> 0"
    from stack_alloc_aligned_step [OF v a] p obtain uo where
      uo: "p = stack_t.buffer stack + uo" "unat (uo + sz) = unat uo + unat sz"
        "stack1 = stack\<lparr>stack_t.offset := uo + sz\<rparr>"
      by auto
    from stack_allocs_within [OF v1 r] q obtain off where
      off: "q = stack_t.buffer stack1 + off" "unat (stack_t.offset stack1) \<le> unat off"
        "unat off + unat n \<le> unat (stack_t.capacity stack1)"
      by blast
    have "unat (stack_t.capacity stack1) < 2 ^ 64"
      using unsigned_less [of "stack_t.capacity stack1"] by simp
    with off have 2: "unat off + unat n \<le> 2 ^ 64" by simp
    have 1: "unat uo + unat sz \<le> unat off"
      using off(2) uo by simp
    have "byte_range (stack_t.buffer stack + uo) sz \<inter> byte_range (stack_t.buffer stack + off) n
            = {}"
      using 1 2 by (rule byte_range_disjoint)
    then show "byte_range p sz \<inter> byte_range q n = {}"
      using uo off by simp
  qed
  then show ?case by (simp add: rs)
qed

lemma stack_frees_append:
  "stack_frees stack m (ps @ qs) =
     (case stack_frees stack m ps of
        None \<Rightarrow> None
      | Some (stack', m') \<Rightarrow> stack_frees stack' m' qs)"
  by (induction ps arbitrary: stack m) (auto split: option.splits)

lemma stack_free_last:
  assumes v: "stack_valid stack"
    and a: "stack_alloc_aligned stack m sz al = Some (p, stack1, m1)"
    and f: "\<forall>x. unat x < unat (stack_t.buffer stack1) + unat (stack_t.offset stack1)
              \<longrightarrow> m' x = m1 x"
  shows "stack_free stack1 m' p = Some (stack, m')"
proof (cases "p = NULL")
  case True
  with stack_alloc_aligned_step [OF v a] show ?thesis
    by (simp add: stack_free_def)
next
  case False
  with stack_alloc_aligned_step [OF v a] obtain uo where
    u: "p = stack_t.buffer stack + uo"
      "unat p = unat (stack_t.buffer stack) + unat uo"
      "unat (stack_t.offset stack) + 8 \<le> unat uo"
      "unat uo + unat sz \<le> unat (stack_t.capacity stack)"
      "unat (uo + sz) = unat uo + unat sz"
      "stack1 = stack\<lparr>stack_t.offset := uo + sz\<rparr>"
      "m1 = m(stack__get_header p := stack_t.offset stack)"
    and sz: "sz \<noteq> 0"
    by auto
  have room: "unat (stack_t.buffer stack) + unat (stack_t.capacity stack) + 8 < 2 ^ 64"
    using v by (simp add: stack_valid_def)
  have szp: "0 < unat sz" using sz by (simp add: unat_gt_0)
  have lo: "stack_t.buffer stack \<le> p"
    using u(2) by (simp add: word_le_nat_alt)
  have "unat (stack_t.buffer stack + stack_t.capacity stack)
          = unat (stack_t.buffer stack) + unat (stack_t.capacity stack)"
    using room by (simp add: unat_plus_if')
  then have hi: "p < stack_t.buffer stack + stack_t.capacity stack"
    using u(2,4) szp by (simp add: word_less_nat_alt)
  have "unat (8 :: 64 word) \<le> unat p" using u by simp
  then have "(8 :: 64 word) \<le> p" by (simp only: word_le_nat_alt)
  then have "unat (p - 8) = unat p - unat (8 :: 64 word)" by (rule unat_sub)
  then have "unat (stack__get_header p) < unat (stack_t.buffer stack1) + unat (stack_t.offset stack1)"
    using u szp by (simp add: stack__get_header_def STACK_HEADER_SIZE_def)
  with f have "m' (stack__get_header p) = m1 (stack__get_header p)" by simp
  then have hdr: "m' (stack__get_header p) = stack_t.offset stack"
    using u(7) by simp
  have le: "stack_t.offset stack \<le> stack_t.offset stack1"
    using u by (simp add: word_le_nat_alt)
  show ?thesis
    using False lo hi hdr le u(6)
    by (simp add: stack_free_def Let_def)
qed

lemma stack_frees_undo_allocs:
  assumes "stack_valid stack" and "stack_allocs stack m reqs = Some (rs, stack', m')"
  shows "stack_frees stack' m' (rev (map fst rs)) = Some (stack, m')"
  using assms
proof (induction reqs arbitrary: stack m rs)
  case Nil
  then show ?case by simp
next
  case (Cons req reqs)
  obtain sz a where req: "req = (sz, a)" by (cases req)
  from Cons.prems(2) obtain p stack1 m1 rs1 where
    a: "stack_alloc_aligned stack m sz a = Some (p, stack1, m1)"
    and r: "stack_allocs stack1 m1 reqs = Some (rs1, stack', m')"
    and rs: "rs = (p, sz) # rs1"
    by (auto simp add: req split: option.splits)
  note v = Cons.prems(1)
  have v1: "stack_valid stack1" using stack_alloc_aligned_valid [OF v a] by simp
  have "stack_frees stack' m' (rev (map fst rs1)) = Some (stack1, m')"
    using Cons.IH [OF v1 r] .
  moreover have "stack_free stack1 m' p = Some (stack, m')"
    using v a
  proof (rule stack_free_last)
    show "\<forall>x. unat x < unat (stack_t.buffer stack1) + unat (stack_t.offset stack1)
              \<longrightarrow> m' x = m1 x"
      using stack_allocs_within [OF v1 r] by blast
  qed
  ultimately show ?case
    by (simp add: rs stack_frees_append)
qed

text \<open>
  C8. On a freshly initialized stack (whose buffer lies in the address space with one
  header word of room above it), after any sequence of allocations, \<^verbatim>\<open>stack_free\<close> on the
  returned pointers in strict reverse order passes every assertion and leaves
  \<open>used = 0\<close>. (A null result of a failed allocation is skipped by \<^verbatim>\<open>stack_free\<close>, so the
  allocations need not all have succeeded.)
\<close>

theorem stack_reverse_frees_reset_used:
  assumes init: "stack_init stack0 buf cap = (0, stack)"
    and room: "unat buf + unat cap + 8 < 2 ^ 64"
    and run: "stack_allocs stack m reqs = Some (rs, stack', m')"
  shows "\<exists>stack'' m''. stack_frees stack' m' (rev (map fst rs)) = Some (stack'', m'')
           \<and> used (stack_stats stack'') = 0"
proof -
  have s: "stack = \<lparr>stack_t.buffer = buf, stack_t.capacity = cap, stack_t.offset = 0\<rparr>"
    and b: "buf \<noteq> NULL"
    using init by (auto simp add: stack_init_def split: if_splits)
  have v: "stack_valid stack"
    using room b by (simp add: stack_valid_def s)
  have "stack_frees stack' m' (rev (map fst rs)) = Some (stack, m')"
    using v run by (rule stack_frees_undo_allocs)
  moreover have "used (stack_stats stack) = 0"
    by (simp add: stack_stats_def s)
  ultimately show ?thesis by blast
qed

theorem stack_reverse_frees_reset_used_witness:
  "stack_init \<lparr>stack_t.buffer = 0, stack_t.capacity = 0, stack_t.offset = 0\<rparr> 4096 256
     = (0, \<lparr>stack_t.buffer = 4096, stack_t.capacity = 256, stack_t.offset = 0\<rparr>)
   \<and> stack_allocs \<lparr>stack_t.buffer = 4096, stack_t.capacity = 256, stack_t.offset = 0\<rparr>
        (\<lambda>_. 0) [(64, 8), (100, 16), (8, 8)]
     = Some ([(4104, 64), (4176, 100), (4288, 8)],
             \<lparr>stack_t.buffer = 4096, stack_t.capacity = 256, stack_t.offset = 200\<rparr>,
             (\<lambda>_. 0)(4096 := 0, 4168 := 72, 4280 := 180))
   \<and> (\<exists>stack'' m''.
         stack_frees \<lparr>stack_t.buffer = 4096, stack_t.capacity = 256, stack_t.offset = 200\<rparr>
            ((\<lambda>_. 0)(4096 := 0, 4168 := 72, 4280 := 180)) [4288, 4176, 4104]
           = Some (stack'', m'')
         \<and> used (stack_stats stack'') = 0)"
proof -
  have i: "stack_init \<lparr>stack_t.buffer = 0, stack_t.capacity = 0, stack_t.offset = 0\<rparr> 4096 256
     = (0, \<lparr>stack_t.buffer = 4096, stack_t.capacity = 256, stack_t.offset = 0\<rparr>)"
    by (simp add: stack_init_def NULL_def)
  have r: "unat (4096 :: 64 word) + unat (256 :: 64 word) + 8 < 2 ^ 64"
    by simp
  have a: "stack_allocs \<lparr>stack_t.buffer = 4096, stack_t.capacity = 256, stack_t.offset = 0\<rparr>
        (\<lambda>_. 0) [(64, 8), (100, 16), (8, 8)]
     = Some ([(4104, 64), (4176, 100), (4288, 8)],
             \<lparr>stack_t.buffer = 4096, stack_t.capacity = 256, stack_t.offset = 200\<rparr>,
             (\<lambda>_. 0)(4096 := 0, 4168 := 72, 4280 := 180))"
    by (simp add: stack_alloc_aligned_def NULL_def STACK_MIN_ALIGNMENT_def
        STACK_HEADER_SIZE_def stack__is_power_of_two_def stack__get_header_def Let_def)
  from stack_reverse_frees_reset_used [OF i r a] i a show ?thesis
    by simp
qed

section \<open>Slots and free lists\<close>

lemma slot_addr_unat:
  assumes f: "slots_fit base ss cnt" and i: "i < unat cnt"
  shows "unat (slot_addr base ss i) = unat base + i * unat ss"
proof -
  have le: "i * unat ss \<le> unat cnt * unat ss"
    using i by (simp add: mult_le_mono1)
  have lt: "unat base + unat cnt * unat ss < 2 ^ 64"
    using f by (simp add: slots_fit_def)
  have "unat cnt < 2 ^ 64" using unsigned_less [of cnt] by simp
  with i have "i < 2 ^ 64" by simp
  then have ui: "unat (of_nat i :: 64 word) = i"
    by (simp only: unat_of_nat len_of_numeral_defs) simp
  have "i * unat ss < 2 ^ 64" using le lt by linarith
  then have "unat (of_nat i * ss) = i * unat ss"
    using ui by (simp only: unat_word_ariths len_of_numeral_defs) simp
  moreover have "unat base + i * unat ss < 2 ^ 64" using le lt by linarith
  ultimately show ?thesis
    by (simp add: slot_addr_def unat_plus_if')
qed

lemma slot_addr_inj:
  assumes f: "slots_fit base ss cnt" and i: "i < unat cnt" and j: "j < unat cnt"
    and e: "slot_addr base ss i = slot_addr base ss j"
  shows "i = j"
proof -
  have "unat (slot_addr base ss i) = unat (slot_addr base ss j)"
    using e by simp
  then have "unat base + i * unat ss = unat base + j * unat ss"
    unfolding slot_addr_unat [OF f i] slot_addr_unat [OF f j] .
  then have "i * unat ss = j * unat ss" by linarith
  moreover have "0 < unat ss"
    using f by (simp add: slots_fit_def unat_gt_0)
  ultimately show ?thesis by auto
qed

lemma slot_addr_not_null:
  assumes f: "slots_fit base ss cnt" and i: "i < unat cnt"
  shows "slot_addr base ss i \<noteq> NULL"
proof -
  have "0 < unat base"
    using f by (simp add: slots_fit_def unat_gt_0 NULL_def)
  with slot_addr_unat [OF f i] have "unat (slot_addr base ss i) \<noteq> 0" by simp
  then show ?thesis unfolding NULL_def by (simp only: unat_eq_0) simp
qed

lemma slot_ranges_disjoint:
  assumes f: "slots_fit base ss cnt" and i: "i < unat cnt" and j: "j < unat cnt"
    and ne: "i \<noteq> j"
  shows "byte_range (slot_addr base ss i) ss \<inter> byte_range (slot_addr base ss j) ss = {}"
proof -
  have aux: "byte_range (slot_addr base ss a) ss \<inter> byte_range (slot_addr base ss b) ss = {}"
    if a: "a < b" and b: "b < unat cnt" for a b
  proof -
    have lt: "unat base + unat cnt * unat ss < 2 ^ 64"
      using f by (simp add: slots_fit_def)
    have "unat cnt < 2 ^ 64" using unsigned_less [of cnt] by simp
    with a b have a64: "a < 2 ^ 64" and b64: "b < 2 ^ 64" by simp_all
    have ua: "unat (of_nat a :: 64 word) = a"
      using a64 by (simp only: unat_of_nat len_of_numeral_defs) simp
    have ub: "unat (of_nat b :: 64 word) = b"
      using b64 by (simp only: unat_of_nat len_of_numeral_defs) simp
    have "Suc b * unat ss \<le> unat cnt * unat ss"
      using b by (intro mult_le_mono1) simp
    then have bb: "b * unat ss + unat ss \<le> unat cnt * unat ss" by simp
    have "Suc a * unat ss \<le> b * unat ss"
      using a by (intro mult_le_mono1) simp
    then have ab: "a * unat ss + unat ss \<le> b * unat ss" by simp
    have "a * unat ss < 2 ^ 64" using ab bb lt by linarith
    then have 1: "unat (of_nat a * ss) = a * unat ss"
      using ua by (simp only: unat_word_ariths len_of_numeral_defs) simp
    have "b * unat ss < 2 ^ 64" using bb lt by linarith
    then have 2: "unat (of_nat b * ss) = b * unat ss"
      using ub by (simp only: unat_word_ariths len_of_numeral_defs) simp
    have "byte_range (base + of_nat a * ss) ss \<inter> byte_range (base + of_nat b * ss) ss = {}"
    proof (rule byte_range_disjoint)
      show "unat (of_nat a * ss) + unat ss \<le> unat (of_nat b * ss)"
        unfolding 1 2 using ab .
      show "unat (of_nat b * ss) + unat ss \<le> 2 ^ 64"
        unfolding 2 using bb lt by linarith
    qed
    then show ?thesis by (simp add: slot_addr_def)
  qed
  show ?thesis
  proof (cases "i < j")
    case True
    then show ?thesis using aux [OF _ j] by simp
  next
    case False
    with ne have "j < i" by simp
    then show ?thesis using aux [OF _ i] by blast
  qed
qed

lemma slot_addrs_Suc:
  "slot_addrs base ss (Suc n) = slot_addrs base ss n @ [slot_addr base ss n]"
  by (simp add: slot_addrs_def)

lemma in_slot_addrs:
  "a \<in> set (slot_addrs base ss n) \<longleftrightarrow> (\<exists>i<n. a = slot_addr base ss i)"
  by (auto simp add: slot_addrs_def)

lemma slot_addrs_distinct:
  assumes f: "slots_fit base ss cnt" and n: "n \<le> unat cnt"
  shows "distinct (slot_addrs base ss n)"
  unfolding slot_addrs_def distinct_map
proof
  show "distinct [0..<n]" by simp
  show "inj_on (slot_addr base ss) (set [0..<n])"
    using slot_addr_inj [OF f] n by (auto intro!: inj_onI)
qed

lemma free_chain_update:
  assumes "x \<notin> set xs"
  shows "free_chain (m(x := v)) p xs = free_chain m p xs"
  using assms by (induction xs arbitrary: p) auto

lemma free_chain_not_null:
  "free_chain m p xs \<Longrightarrow> NULL \<notin> set xs"
  by (induction xs arbitrary: p) auto

lemma free_chain_null:
  "free_chain m NULL xs \<longleftrightarrow> xs = []"
  by (cases xs) auto

lemma free_chain_head:
  assumes "free_chain m p xs" and "p \<noteq> NULL"
  obtains ys where "xs = p # ys" and "free_chain m (m p) ys"
  using assms by (cases xs) auto

text \<open>
  The loop of \<^verbatim>\<open>pool__build_free_list\<close> run for \<open>i\<close> rounds puts slots \<open>0, \<dots>, i - 1\<close> in
  front of the list it started from, and writes to those slots only.
\<close>

lemma pool__build_free_list_loop_chain:
  assumes f: "slots_fit (pool_t.buffer pool) (pool_t.slot_size pool) cnt"
    and i: "i \<le> unat cnt"
    and c: "free_chain m fl xs"
    and d: "set xs \<inter> set (slot_addrs (pool_t.buffer pool) (pool_t.slot_size pool) i) = {}"
  shows "\<exists>fl' m'. pool__build_free_list_loop pool i fl m = (fl', m')
           \<and> free_chain m' fl' (slot_addrs (pool_t.buffer pool) (pool_t.slot_size pool) i @ xs)
           \<and> (\<forall>a. a \<notin> set (slot_addrs (pool_t.buffer pool) (pool_t.slot_size pool) i)
                  \<longrightarrow> m' a = m a)"
  using i c d
proof (induction i arbitrary: fl m xs)
  case 0
  then show ?case by (simp add: slot_addrs_def)
next
  case (Suc i)
  define base where "base = pool_t.buffer pool"
  define ss where "ss = pool_t.slot_size pool"
  define slot where "slot = slot_addr base ss i"
  note f' = f [folded base_def ss_def]
  have i: "i < unat cnt" using Suc.prems(1) by simp
  have sp: "pool__slot_ptr pool (of_nat i) = slot"
    by (simp add: pool__slot_ptr_def slot_def slot_addr_def base_def ss_def)
  have n0: "slot \<noteq> NULL"
    unfolding slot_def using f' i by (rule slot_addr_not_null)
  have nx: "slot \<notin> set xs"
    using Suc.prems(3) by (auto simp add: slot_addrs_Suc slot_def base_def ss_def)
  have ns: "slot \<notin> set (slot_addrs base ss i)"
    using slot_addrs_distinct [OF f', of "Suc i"] i
    by (simp add: slot_addrs_Suc slot_def)
  have c': "free_chain (m(slot := fl)) slot (slot # xs)"
    using n0 nx Suc.prems(2) by (simp add: free_chain_update)
  have d': "set (slot # xs) \<inter> set (slot_addrs (pool_t.buffer pool) (pool_t.slot_size pool) i)
              = {}"
    using Suc.prems(3) ns by (auto simp add: slot_addrs_Suc base_def ss_def)
  have "i \<le> unat cnt" using i by simp
  from Suc.IH [OF this c' d'] obtain fl' m' where
    r: "pool__build_free_list_loop pool i slot (m(slot := fl)) = (fl', m')"
    and ch: "free_chain m' fl' (slot_addrs base ss i @ slot # xs)"
    and fr: "\<forall>a. a \<notin> set (slot_addrs base ss i) \<longrightarrow> m' a = (m(slot := fl)) a"
    unfolding base_def ss_def by blast
  have "pool__build_free_list_loop pool (Suc i) fl m = (fl', m')"
    using r by (simp add: sp Let_def)
  moreover have "free_chain m' fl' (slot_addrs base ss (Suc i) @ xs)"
    using ch by (simp add: slot_addrs_Suc slot_def)
  moreover have "\<forall>a. a \<notin> set (slot_addrs base ss (Suc i)) \<longrightarrow> m' a = m a"
    using fr by (auto simp add: slot_addrs_Suc slot_def)
  ultimately show ?case
    unfolding base_def ss_def by blast
qed

section \<open>What \<^verbatim>\<open>pool_init\<close> establishes\<close>

lemma align8_cases:
  fixes x :: "64 word"
  shows "(unat x + 7 < 2 ^ 64 \<and> unat x \<le> unat ((x + 8 - 1) AND NOT (8 - 1))
            \<and> unat ((x + 8 - 1) AND NOT (8 - 1)) < unat x + 8
            \<and> 8 dvd unat ((x + 8 - 1) AND NOT (8 - 1)))
       \<or> (2 ^ 64 \<le> unat x + 7 \<and> (x + 8 - 1) AND NOT (8 - 1) = 0)"
proof -
  have "(2 ^ 3 :: 64 word) = 8" and "(2 ^ 3 :: nat) = 8" by simp_all
  with align_mask_cases [of 3 x] show ?thesis
    by (simp only: add_diff_cancel_right' diff_add_inverse2) simp
qed


lemma pool_init_ok:
  assumes vb: "valid_buffer buf sz"
    and i: "pool_init pool0 m0 buf sz slot_sz = Some (POOL_OK, pool, m)"
  shows "pool_geometry pool
       \<and> pool_t.slot_count pool \<noteq> 0
       \<and> free_chain m (pool_t.free_list pool)
            (slot_addrs (pool_t.buffer pool) (pool_t.slot_size pool)
               (unat (pool_t.slot_count pool)))"
proof -
  define eff where
    "eff = pool__align_up (if slot_sz < SIZEOF_PTR then SIZEOF_PTR else slot_sz) POOL_ALIGN"
  define as where "as = pool__align_ptr buf POOL_ALIGN"
  define oh where "oh = as - buf"
  define usable where "usable = sz - oh"
  define cnt where "cnt = usable div eff"
  define pool1 where "pool1 = pool_zero\<lparr>pool_t.buffer := as,
                             buffer_end := as + cnt * eff,
                             pool_t.slot_size := eff,
                             pool_t.slot_count := cnt\<rparr>"
  have b0: "buf \<noteq> NULL" and room: "unat buf + unat sz < 2 ^ 64"
    using vb by (simp_all add: valid_buffer_def)
  have s0: "slot_sz \<noteq> 0"
    using i b0 by (auto simp add: pool_init_def split: if_splits)
  have al: "(POOL_ALIGN AND (POOL_ALIGN - 1)) = 0"
    by (simp add: POOL_ALIGN_def)
  have unfold: "pool_init pool0 m0 buf sz slot_sz =
      (if oh \<ge> sz then Some (POOL_ERR_BUFFER_TOO_SMALL, pool_zero, m0)
       else if eff = 0 then None
       else if cnt = 0 then Some (POOL_ERR_BUFFER_TOO_SMALL, pool_zero, m0)
       else (let (pool', m') = pool__build_free_list pool1 m0 in Some (POOL_OK, pool', m')))"
    using b0 s0 al
    by (simp add: pool_init_def Let_def eff_def [symmetric] as_def [symmetric]
        oh_def [symmetric] usable_def [symmetric] cnt_def [symmetric] pool1_def [symmetric])
  have ok: "\<not> oh \<ge> sz" "eff \<noteq> 0" "cnt \<noteq> 0"
    using i unfolding unfold by (auto split: if_splits)
  then have bl: "pool__build_free_list pool1 m0 = (pool, m)"
    using i unfolding unfold by (auto split: prod.splits)
  have cases: "(unat buf + 7 < 2 ^ 64 \<and> unat buf \<le> unat as \<and> unat as < unat buf + 8
                  \<and> 8 dvd unat as)
             \<or> (2 ^ 64 \<le> unat buf + 7 \<and> as = 0)"
    unfolding as_def pool__align_ptr_def POOL_ALIGN_def by (rule align8_cases)
  have bpos: "0 < unat buf"
    using b0 by (simp add: NULL_def unat_gt_0)
  have as0: "as \<noteq> 0"
  proof
    assume z: "as = 0"
    have "unat (0 - buf) = 2 ^ 64 - unat buf"
      using bpos by (simp only: unat_sub_if' len_of_numeral_defs) simp
    then have "unat oh = 2 ^ 64 - unat buf" by (simp only: oh_def z)
    with room have "unat sz \<le> unat oh" by simp
    then have "sz \<le> oh" by (simp only: word_le_nat_alt)
    with ok(1) show False by simp
  qed
  with cases have lo: "unat buf \<le> unat as" by auto
  then have "buf \<le> as" by (simp only: word_le_nat_alt)
  then have uoh: "unat oh = unat as - unat buf"
    unfolding oh_def by (rule unat_sub)
  have "oh \<le> sz" using ok(1) by simp
  then have uus: "unat usable = unat sz - unat oh"
    unfolding usable_def by (rule unat_sub)
  have ohsz: "unat oh < unat sz"
    using ok(1) by (simp add: word_le_nat_alt not_le)
  have ucnt: "unat cnt = unat usable div unat eff"
    unfolding cnt_def by (rule unat_div)
  have prod: "unat cnt * unat eff \<le> unat usable"
    unfolding ucnt by simp
  have fit: "unat as + unat cnt * unat eff < 2 ^ 64"
    using prod uus uoh lo ohsz room by linarith
  have asn: "as \<noteq> NULL" using as0 by (simp add: NULL_def)
  have sf: "slots_fit as eff cnt"
    using asn ok(2) fit by (simp add: slots_fit_def)
  have p1: "pool_t.buffer pool1 = as" "pool_t.slot_size pool1 = eff"
    "pool_t.slot_count pool1 = cnt" "buffer_end pool1 = as + cnt * eff"
    by (simp_all add: pool1_def)
  have "\<exists>fl' m'. pool__build_free_list_loop pool1 (unat cnt) NULL m0 = (fl', m')
           \<and> free_chain m' fl' (slot_addrs (pool_t.buffer pool1) (pool_t.slot_size pool1)
                                    (unat cnt) @ [])
           \<and> (\<forall>a. a \<notin> set (slot_addrs (pool_t.buffer pool1) (pool_t.slot_size pool1)
                                  (unat cnt)) \<longrightarrow> m' a = m0 a)"
  proof (rule pool__build_free_list_loop_chain)
    show "slots_fit (pool_t.buffer pool1) (pool_t.slot_size pool1) cnt"
      using sf by (simp add: p1)
  qed simp_all
  then obtain fl where
    lp: "pool__build_free_list_loop pool1 (unat cnt) NULL m0 = (fl, m)"
    and pl: "pool = pool1\<lparr>pool_t.free_list := fl, pool_t.free_count := cnt\<rparr>"
    and ch: "free_chain m fl (slot_addrs as eff (unat cnt))"
    using bl by (auto simp add: pool__build_free_list_def p1)
  have "pool_geometry pool"
    using sf by (simp add: pool_geometry_def pl p1)
  moreover have "pool_t.slot_count pool \<noteq> 0"
    using ok(3) by (simp add: pl p1)
  moreover have "free_chain m (pool_t.free_list pool)
      (slot_addrs (pool_t.buffer pool) (pool_t.slot_size pool) (unat (pool_t.slot_count pool)))"
    using ch by (simp add: pl p1)
  ultimately show ?thesis by blast
qed

section \<open>Pool invariants\<close>

lemma pool_owns_iff_slot:
  assumes g: "pool_geometry pool"
  shows "pool_owns pool p \<longleftrightarrow> p \<in> pool_slots pool"
proof -
  define b where "b = pool_t.buffer pool"
  define ss where "ss = pool_t.slot_size pool"
  define cnt where "cnt = pool_t.slot_count pool"
  have f: "slots_fit b ss cnt" and e: "buffer_end pool = b + cnt * ss"
    using g by (simp_all add: pool_geometry_def b_def ss_def cnt_def)
  have fit: "unat b + unat cnt * unat ss < 2 ^ 64" and ss0: "0 < unat ss" and b0: "b \<noteq> NULL"
    using f by (simp_all add: slots_fit_def unat_gt_0)
  have ucs: "unat (cnt * ss) = unat cnt * unat ss"
    using fit by (simp only: unat_word_ariths len_of_numeral_defs) simp
  have ue: "unat (buffer_end pool) = unat b + unat cnt * unat ss"
    using fit ucs by (simp add: e unat_plus_if')
  show ?thesis
  proof
    assume o: "pool_owns pool p"
    then have p0: "p \<noteq> NULL" and lo: "b \<le> p" and hi: "p < buffer_end pool"
      and md: "(p - b) mod ss = 0"
      by (auto simp add: pool_owns_def Let_def b_def ss_def not_less not_le split: if_splits)
    define off where "off = p - b"
    have uo: "unat off = unat p - unat b"
      unfolding off_def using lo by (rule unat_sub)
    have "unat (off mod ss) = unat off mod unat ss" by (rule unat_mod)
    with md have m0: "unat off mod unat ss = 0" by (simp add: off_def)
    define i where "i = unat off div unat ss"
    have oi: "unat off = i * unat ss"
      using m0 unfolding i_def by (metis div_mult_mod_eq add.right_neutral)
    have "unat p < unat b + unat cnt * unat ss"
      using hi ue by (simp add: word_less_nat_alt)
    moreover have "unat b \<le> unat p" using lo by (simp add: word_le_nat_alt)
    ultimately have "i * unat ss < unat cnt * unat ss"
      using uo oi by linarith
    then have ic: "i < unat cnt" by simp
    have "off = of_nat (unat off)" by simp
    also have "\<dots> = of_nat i * of_nat (unat ss)" unfolding oi by simp
    finally have "off = of_nat i * ss" by simp
    moreover have "p = b + off" by (simp add: off_def)
    ultimately have "p = slot_addr b ss i"
      by (simp only: slot_addr_def)
    with ic show "p \<in> pool_slots pool"
      by (auto simp add: pool_slots_def in_slot_addrs b_def ss_def cnt_def)
  next
    assume "p \<in> pool_slots pool"
    then obtain i where i: "i < unat cnt" and p: "p = slot_addr b ss i"
      by (auto simp add: pool_slots_def in_slot_addrs b_def ss_def cnt_def)
    have up: "unat p = unat b + i * unat ss"
      unfolding p using f i by (rule slot_addr_unat)
    have p0: "p \<noteq> NULL"
      unfolding p using f i by (rule slot_addr_not_null)
    have lo: "b \<le> p" using up by (simp add: word_le_nat_alt)
    have "Suc i * unat ss \<le> unat cnt * unat ss"
      using i by (intro mult_le_mono1) simp
    then have "i * unat ss + unat ss \<le> unat cnt * unat ss" by simp
    then have "unat p < unat (buffer_end pool)"
      unfolding up ue using ss0 by linarith
    then have hi: "p < buffer_end pool" by (simp add: word_less_nat_alt)
    have "unat (p - b) = unat p - unat b" using lo by (rule unat_sub)
    then have "unat ((p - b) mod ss) = 0"
      using up by (simp add: unat_mod)
    then have md: "(p - b) mod ss = 0" by (simp only: unat_eq_0)
    show "pool_owns pool p"
      using p0 lo hi md
      by (simp add: pool_owns_def Let_def b_def [symmetric] ss_def [symmetric] not_less)
  qed
qed

lemma free_chain_links:
  assumes "free_chain m p xs"
  shows "(p = NULL \<or> p \<in> set xs) \<and> (\<forall>x \<in> set xs. m x = NULL \<or> m x \<in> set xs)"
  using assms
proof (induction xs arbitrary: p)
  case Nil
  then show ?case by simp
next
  case (Cons x xs)
  then have "free_chain m (m x) xs" and "p = x" by simp_all
  with Cons.IH [of "m x"] show ?case by auto
qed

lemma free_chain_distinct:
  assumes "free_chain m p xs"
  shows "distinct xs"
  using assms
proof (induction xs arbitrary: p)
  case Nil
  then show ?case by simp
next
  case (Cons x xs)
  then have c: "free_chain m (m x) xs" by simp
  then have d: "distinct xs" by (rule Cons.IH)
  have "x \<notin> set xs"
  proof
    assume "x \<in> set xs"
    then obtain ys zs where s: "xs = ys @ x # zs"
      by (auto simp add: in_set_conv_decomp)
    have ap: "\<And>q. free_chain m q (ys @ x # zs) \<Longrightarrow> free_chain m (m x) zs"
      by (induction ys) auto
    have un: "\<And>q as bs. free_chain m q as \<Longrightarrow> free_chain m q bs \<Longrightarrow> as = bs"
    proof -
      fix q as bs
      show "free_chain m q as \<Longrightarrow> free_chain m q bs \<Longrightarrow> as = bs"
      proof (induction as arbitrary: q bs)
        case Nil
        then show ?case by (cases bs) auto
      next
        case (Cons a as)
        then show ?case by (cases bs) auto
      qed
    qed
    from c s have "free_chain m (m x) zs" using ap by blast
    with c have "xs = zs" by (rule un)
    with s show False by simp
  qed
  with d show ?case by simp
qed

lemma pool_init_inv:
  assumes vb: "valid_buffer buf sz"
    and i: "pool_init pool0 m0 buf sz slot_sz = Some (POOL_OK, pool, m)"
  shows "pool_inv pool m {}" and "pool_links pool m {}"
proof -
  define xs where "xs = slot_addrs (pool_t.buffer pool) (pool_t.slot_size pool)
               (unat (pool_t.slot_count pool))"
  from pool_init_ok [OF vb i] have g: "pool_geometry pool"
    and c: "free_chain m (pool_t.free_list pool) xs"
    by (simp_all add: xs_def)
  have s: "set xs = pool_slots pool" by (simp add: pool_slots_def xs_def)
  have d: "distinct xs" using c by (rule free_chain_distinct)
  show "pool_inv pool m {}"
    unfolding pool_inv_def using g c d s by auto
  show "pool_links pool m {}"
    unfolding pool_links_def using g free_chain_links [OF c] s by auto
qed

lemma pool_alloc_fields:
  assumes "pool_alloc pool m = (p, pool')"
  shows "pool_t.buffer pool' = pool_t.buffer pool
       \<and> buffer_end pool' = buffer_end pool
       \<and> pool_t.slot_size pool' = pool_t.slot_size pool
       \<and> pool_t.slot_count pool' = pool_t.slot_count pool"
  using assms by (auto simp add: pool_alloc_def Let_def split: if_splits)

lemma pool_free_fields:
  assumes "pool_free pool m p = (e, pool', m')"
  shows "pool_t.buffer pool' = pool_t.buffer pool
       \<and> buffer_end pool' = buffer_end pool
       \<and> pool_t.slot_size pool' = pool_t.slot_size pool
       \<and> pool_t.slot_count pool' = pool_t.slot_count pool"
  using assms by (auto simp add: pool_free_def split: if_splits)

lemma pool_same_layout:
  assumes "pool_t.buffer pool' = pool_t.buffer pool
       \<and> buffer_end pool' = buffer_end pool
       \<and> pool_t.slot_size pool' = pool_t.slot_size pool
       \<and> pool_t.slot_count pool' = pool_t.slot_count pool"
  shows "pool_slots pool' = pool_slots pool" and "pool_geometry pool' = pool_geometry pool"
    and "pool_owns pool' = pool_owns pool"
  using assms by (simp_all add: pool_slots_def pool_geometry_def pool_owns_def fun_eq_iff)

lemma pool_call_step_links:
  assumes "pool_links pool m live"
    and "pool_call_step (pool, m, live) c = (pool', m', live')"
  shows "pool_links pool' m' live'
       \<and> pool_slots pool' = pool_slots pool \<and> pool_owns pool' = pool_owns pool"
proof (cases c)
  case Alloc
  obtain p pool1 where a: "pool_alloc pool m = (p, pool1)" by (cases "pool_alloc pool m")
  note l = pool_same_layout [OF pool_alloc_fields [OF a]]
  have r: "pool' = pool1" "m' = m" "live' = (if p = NULL then live else insert p live)"
    using assms(2) Alloc a by auto
  have "p = pool_t.free_list pool"
    and "pool_t.free_list pool1 = (if p = NULL then NULL else m p)"
    using a by (auto simp add: pool_alloc_def Let_def split: if_splits)
  with assms(1) show ?thesis
    unfolding pool_links_def r l by auto
next
  case (Free p)
  obtain e pool1 m1 where f: "pool_free pool m p = (e, pool1, m1)"
    by (cases "pool_free pool m p")
  note l = pool_same_layout [OF pool_free_fields [OF f]]
  have r: "pool' = pool1" "m' = m1" "live' = (if e = POOL_OK then live - {p} else live)"
    using assms(2) Free f by auto
  have g: "pool_geometry pool" using assms(1) by (simp add: pool_links_def)
  show ?thesis
  proof (cases "e = POOL_OK")
    case True
    then have "pool_owns pool p" and "m1 = m(p := pool_t.free_list pool)"
      and "pool_t.free_list pool1 = p"
      using f by (auto simp add: pool_free_def split: if_splits)
    moreover from this have "p \<in> pool_slots pool"
      using pool_owns_iff_slot [OF g] by simp
    ultimately show ?thesis
      using assms(1) True unfolding pool_links_def r l by auto
  next
    case False
    then have "pool1 = pool" "m1 = m"
      using f by (auto simp add: pool_free_def split: if_splits)
    with assms(1) False show ?thesis
      unfolding r by simp
  qed
qed

lemma pool_run_links:
  assumes "pool_links pool m live" and "pool_run (pool, m, live) cs = (pool', m', live')"
  shows "pool_links pool' m' live'
       \<and> pool_slots pool' = pool_slots pool \<and> pool_owns pool' = pool_owns pool"
  using assms
proof (induction cs arbitrary: pool m live)
  case Nil
  then show ?case by simp
next
  case (Cons c cs)
  obtain pool1 m1 live1 where s: "pool_call_step (pool, m, live) c = (pool1, m1, live1)"
    by (cases "pool_call_step (pool, m, live) c")
  from pool_call_step_links [OF Cons.prems(1) s]
  have 1: "pool_links pool1 m1 live1" "pool_slots pool1 = pool_slots pool"
    "pool_owns pool1 = pool_owns pool"
    by simp_all
  from Cons.prems(2) s have "pool_run (pool1, m1, live1) cs = (pool', m', live')" by simp
  from Cons.IH [OF 1(1) this] 1 show ?case by simp
qed

lemma pool_call_step_inv:
  assumes i: "pool_inv pool m live"
    and s: "pool_call_step (pool, m, live) c = (pool', m', live')"
    and c: "\<And>p. c = Free p \<Longrightarrow> p \<in> live"
  shows "pool_inv pool' m' live'"
proof -
  from i obtain xs where g: "pool_geometry pool" and lv: "live \<subseteq> pool_slots pool"
    and ch: "free_chain m (pool_t.free_list pool) xs" and d: "distinct xs"
    and sub: "set xs \<subseteq> pool_slots pool" and dj: "set xs \<inter> live = {}"
    by (auto simp add: pool_inv_def)
  show ?thesis
  proof (cases c)
    case Alloc
    obtain p pool1 where a: "pool_alloc pool m = (p, pool1)" by (cases "pool_alloc pool m")
    note l = pool_same_layout [OF pool_alloc_fields [OF a]]
    have r: "pool' = pool1" "m' = m" "live' = (if p = NULL then live else insert p live)"
      using s Alloc a by auto
    show ?thesis
    proof (cases "pool_t.free_list pool = NULL")
      case True
      then have "p = NULL" "pool1 = pool" using a by (simp_all add: pool_alloc_def)
      with i show ?thesis by (simp add: r)
    next
      case False
      with ch obtain ys where xs: "xs = pool_t.free_list pool # ys"
        and ch': "free_chain m (m (pool_t.free_list pool)) ys"
        by (rule free_chain_head)
      have p: "p = pool_t.free_list pool" "pool_t.free_list pool1 = m p" "p \<noteq> NULL"
        using a False by (auto simp add: pool_alloc_def Let_def)
      have "free_chain m (pool_t.free_list pool1) ys" using ch' p by simp
      moreover have "distinct ys" "p \<notin> set ys" using d xs p by auto
      moreover have "set ys \<subseteq> pool_slots pool" "p \<in> pool_slots pool" using sub xs p by auto
      moreover have "set ys \<inter> live = {}" using dj xs by auto
      ultimately show ?thesis
        unfolding pool_inv_def r l using g lv p by auto
    qed
  next
    case (Free p)
    obtain e pool1 m1 where f: "pool_free pool m p = (e, pool1, m1)"
      by (cases "pool_free pool m p")
    note l = pool_same_layout [OF pool_free_fields [OF f]]
    have pl: "p \<in> live" using c Free by simp
    then have ps: "p \<in> pool_slots pool" using lv by auto
    then have o: "pool_owns pool p" using pool_owns_iff_slot [OF g] by simp
    then have p0: "p \<noteq> NULL" by (auto simp add: pool_owns_def split: if_splits)
    have e: "e = POOL_OK" "m1 = m(p := pool_t.free_list pool)" "pool_t.free_list pool1 = p"
      using f o p0 by (auto simp add: pool_free_def)
    have r: "pool' = pool1" "m' = m1" "live' = live - {p}"
      using s Free f e by auto
    have pn: "p \<notin> set xs" using dj pl by auto
    then have "free_chain m1 (pool_t.free_list pool) xs"
      using ch by (simp add: e free_chain_update)
    then have "free_chain m1 (pool_t.free_list pool1) (p # xs)"
      using p0 by (simp add: e)
    moreover have "distinct (p # xs)" using d pn by simp
    moreover have "set (p # xs) \<subseteq> pool_slots pool" using sub ps by simp
    moreover have "set (p # xs) \<inter> (live - {p}) = {}" using dj by auto
    ultimately show ?thesis
      unfolding pool_inv_def r l using g lv by blast
  qed
qed

lemma pool_run_inv:
  assumes "pool_inv pool m live" and "frees_live (pool, m, live) cs"
    and "pool_run (pool, m, live) cs = (pool', m', live')"
  shows "pool_inv pool' m' live'"
  using assms
proof (induction cs arbitrary: pool m live)
  case Nil
  then show ?case by simp
next
  case (Cons c cs)
  obtain pool1 m1 live1 where s: "pool_call_step (pool, m, live) c = (pool1, m1, live1)"
    by (cases "pool_call_step (pool, m, live) c")
  have fl: "\<And>p. c = Free p \<Longrightarrow> p \<in> live"
    using Cons.prems(2) by auto
  have 1: "pool_inv pool1 m1 live1"
    using Cons.prems(1) s fl by (rule pool_call_step_inv)
  have 2: "frees_live (pool1, m1, live1) cs"
    using Cons.prems(2) s by (cases c) auto
  from Cons.prems(3) s have 3: "pool_run (pool1, m1, live1) cs = (pool', m', live')" by simp
  from Cons.IH [OF 1 2 3] show ?case .
qed

section \<open>Pool allocations do not overlap\<close>

lemma pool_allocs_chain:
  assumes g: "pool_geometry pool"
    and "free_chain m (pool_t.free_list pool) xs" and "distinct xs"
    and "set xs \<subseteq> pool_slots pool"
    and "pool_allocs pool m n = (ps, pool')"
  shows "set ps \<subseteq> insert NULL (set xs)
       \<and> no_overlap (map (\<lambda>p. (p, pool_t.slot_size pool)) ps)"
  using assms
proof (induction n arbitrary: pool xs ps pool')
  case 0
  then show ?case by (simp add: no_overlap_Nil)
next
  case (Suc n)
  obtain p pool1 where a: "pool_alloc pool m = (p, pool1)" by (cases "pool_alloc pool m")
  obtain ps1 pool2 where r: "pool_allocs pool1 m n = (ps1, pool2)"
    by (cases "pool_allocs pool1 m n")
  have ps: "ps = p # ps1" using Suc.prems(5) a r by simp
  note fl = pool_alloc_fields [OF a]
  note l = pool_same_layout [OF fl]
  have g1: "pool_geometry pool1" using Suc.prems(1) l by simp
  have ss: "pool_t.slot_size pool1 = pool_t.slot_size pool" using fl by simp
  show ?case
  proof (cases "pool_t.free_list pool = NULL")
    case True
    then have e: "p = NULL" "pool1 = pool" using a by (simp_all add: pool_alloc_def)
    from Suc.IH [OF Suc.prems(1-4) r [unfolded e]]
    have ih: "set ps1 \<subseteq> insert NULL (set xs)"
      "no_overlap (map (\<lambda>p. (p, pool_t.slot_size pool)) ps1)"
      by simp_all
    have "no_overlap ((p, pool_t.slot_size pool) # map (\<lambda>p. (p, pool_t.slot_size pool)) ps1)"
      using ih(2) by (rule no_overlap_Cons) (simp add: e)
    with ih e show ?thesis by (simp add: ps)
  next
    case False
    with Suc.prems(2) obtain ys where xs: "xs = pool_t.free_list pool # ys"
      and ch': "free_chain m (m (pool_t.free_list pool)) ys"
      by (rule free_chain_head)
    have p: "p = pool_t.free_list pool" "pool_t.free_list pool1 = m p" "p \<noteq> NULL"
      using a False by (auto simp add: pool_alloc_def Let_def)
    have c1: "free_chain m (pool_t.free_list pool1) ys" using ch' p by simp
    have d1: "distinct ys" and pn: "p \<notin> set ys" using Suc.prems(3) xs p by auto
    have s1: "set ys \<subseteq> pool_slots pool1" and pin: "p \<in> pool_slots pool"
      using Suc.prems(4) xs p l by auto
    from Suc.IH [OF g1 c1 d1 s1 r]
    have ih: "set ps1 \<subseteq> insert NULL (set ys)"
      "no_overlap (map (\<lambda>p. (p, pool_t.slot_size pool)) ps1)"
      by (simp_all add: ss)
    have "no_overlap ((p, pool_t.slot_size pool) # map (\<lambda>p. (p, pool_t.slot_size pool)) ps1)"
      using ih(2)
    proof (rule no_overlap_Cons)
      fix q n'
      assume q: "(q, n') \<in> set (map (\<lambda>p. (p, pool_t.slot_size pool)) ps1)" "q \<noteq> NULL"
      then have qy: "q \<in> set ys" and n': "n' = pool_t.slot_size pool"
        using ih(1) by auto
      then have qs: "q \<in> pool_slots pool" and ne: "q \<noteq> p"
        using s1 l pn by auto
      define b where "b = pool_t.buffer pool"
      define sz where "sz = pool_t.slot_size pool"
      define cnt where "cnt = pool_t.slot_count pool"
      have f: "slots_fit b sz cnt"
        using Suc.prems(1) by (simp add: pool_geometry_def b_def sz_def cnt_def)
      from pin obtain i where i: "i < unat cnt" "p = slot_addr b sz i"
        by (auto simp add: pool_slots_def in_slot_addrs b_def sz_def cnt_def)
      from qs obtain j where j: "j < unat cnt" "q = slot_addr b sz j"
        by (auto simp add: pool_slots_def in_slot_addrs b_def sz_def cnt_def)
      have "i \<noteq> j" using ne i j by auto
      with f i(1) j(1)
      have "byte_range (slot_addr b sz i) sz \<inter> byte_range (slot_addr b sz j) sz = {}"
        by (rule slot_ranges_disjoint)
      then show "byte_range p (pool_t.slot_size pool) \<inter> byte_range q n' = {}"
        by (simp add: i j n' sz_def)
    qed
    with ih xs p show ?thesis by (auto simp add: ps)
  qed
qed

section \<open>Unrolling loops on numerals\<close>

lemma pool__build_free_list_loop_numeral:
  "pool__build_free_list_loop pool (numeral k) fl m =
     (let slot = pool__slot_ptr pool (of_nat (pred_numeral k))
      in pool__build_free_list_loop pool (pred_numeral k) slot (m(slot := fl)))"
  by (simp add: numeral_eq_Suc)

lemma pool__build_free_list_loop_1:
  "pool__build_free_list_loop pool 1 fl m =
     (pool__slot_ptr pool 0, m(pool__slot_ptr pool 0 := fl))"
  by (simp add: Let_def)

lemma pool_allocs_numeral:
  "pool_allocs pool m (numeral k) =
     (let (p, pool') = pool_alloc pool m; (ps, pool'') = pool_allocs pool' m (pred_numeral k)
      in (p # ps, pool''))"
  by (simp add: numeral_eq_Suc)

lemma pool_allocs_1:
  "pool_allocs pool m 1 = (let (p, pool') = pool_alloc pool m in ([p], pool'))"
  by (simp add: Let_def split: prod.splits)

lemma stack_init_valid:
  assumes "stack_init stack0 buf cap = (0, stack)" and "unat buf + unat cap + 8 < 2 ^ 64"
  shows "stack_valid stack"
  using assms by (auto simp add: stack_init_def stack_valid_def split: if_splits)

lemma stack_free_valid:
  assumes "stack_valid stack" and "stack_free stack m p = Some (stack', m')"
  shows "stack_valid stack'"
  using assms by (auto simp add: stack_free_def stack_valid_def Let_def split: if_splits)

section \<open>Allocations do not overlap\<close>

text \<open>
  C1. Any two successful allocations of non-zero size made in a row, with possibly other
  allocations but no reset, rewind or free between them, have disjoint byte ranges:
  \<^item> on an initialized arena, for any sequence of \<^verbatim>\<open>arena_alloc_aligned\<close> calls;
  \<^item> on a valid stack (non-null buffer lying in the address space with one header word of
    room above it, watermark within the capacity; \<^verbatim>\<open>stack_init\<close> gives such a stack and
    \<^verbatim>\<open>stack_alloc_aligned\<close> and \<^verbatim>\<open>stack_free\<close> keep it so), for any sequence of
    \<^verbatim>\<open>stack_alloc_aligned\<close> calls;
  \<^item> on a pool set up by a successful \<^verbatim>\<open>pool_init\<close> on a valid buffer and then used through
    any calls of \<^verbatim>\<open>pool_alloc\<close> and \<^verbatim>\<open>pool_free\<close> that free live pointers only, for any
    number of \<^verbatim>\<open>pool_alloc\<close> calls; the size of a pool allocation is the slot size.
\<close>

theorem allocations_do_not_overlap:
  "(arena_t.initialized arena \<and> arena_allocs arena reqs = Some (rs, arena')
      \<longrightarrow> no_overlap rs)
   \<and> (stack_valid stack \<and> stack_allocs stack m sreqs = Some (srs, stack', m')
      \<longrightarrow> no_overlap srs)
   \<and> (valid_buffer buf sz \<and> pool_init pool0 m0 buf sz slot_sz = Some (POOL_OK, pool, pm)
       \<and> frees_live (pool, pm, {}) calls
       \<and> pool_run (pool, pm, {}) calls = (pool', pm', live)
       \<and> pool_allocs pool' pm' n = (ps, pool'')
      \<longrightarrow> no_overlap (map (\<lambda>p. (p, pool_t.slot_size pool')) ps))"
proof (intro conjI impI)
  assume "arena_t.initialized arena \<and> arena_allocs arena reqs = Some (rs, arena')"
  then show "no_overlap rs"
    using arena_allocs_no_overlap by blast
next
  assume "stack_valid stack \<and> stack_allocs stack m sreqs = Some (srs, stack', m')"
  then show "no_overlap srs"
    using stack_allocs_no_overlap by blast
next
  assume h: "valid_buffer buf sz \<and> pool_init pool0 m0 buf sz slot_sz = Some (POOL_OK, pool, pm)
       \<and> frees_live (pool, pm, {}) calls
       \<and> pool_run (pool, pm, {}) calls = (pool', pm', live)
       \<and> pool_allocs pool' pm' n = (ps, pool'')"
  then have "pool_inv pool pm {}"
    using pool_init_inv(1) by blast
  with h have "pool_inv pool' pm' live"
    using pool_run_inv by blast
  then obtain xs where "pool_geometry pool'" "free_chain pm' (pool_t.free_list pool') xs"
    "distinct xs" "set xs \<subseteq> pool_slots pool'"
    by (auto simp add: pool_inv_def)
  with h show "no_overlap (map (\<lambda>p. (p, pool_t.slot_size pool')) ps)"
    using pool_allocs_chain by blast
qed

theorem allocations_do_not_overlap_witness:
  "no_overlap [(4096, 8), (4104, 0), (4104, 100 :: 64 word)]
   \<and> no_overlap [(4104, 64), (4176, 100), (4288, 8 :: 64 word)]
   \<and> no_overlap [(4096, 16), (4128, 16), (4144, 16), (NULL, 16 :: 64 word)]"
proof -
  have a: "arena_t.initialized \<lparr>arena_t.buffer = 4096, arena_t.capacity = 256,
               arena_t.offset = 0, arena_t.initialized = True\<rparr>
         \<and> arena_allocs \<lparr>arena_t.buffer = 4096, arena_t.capacity = 256, arena_t.offset = 0,
               arena_t.initialized = True\<rparr> [(8, 16), (0, 1), (100, 8)]
           = Some ([(4096, 8), (4104, 0), (4104, 100)],
                   \<lparr>arena_t.buffer = 4096, arena_t.capacity = 256, arena_t.offset = 108,
                    arena_t.initialized = True\<rparr>)"
    by (simp add: arena__alloc_def arena__is_power_of_two_def
        arena__calc_aligned_offset_def arena__align_up_def Let_def)
  have s: "stack_valid \<lparr>stack_t.buffer = 4096, stack_t.capacity = 256, stack_t.offset = 0\<rparr>
         \<and> stack_allocs \<lparr>stack_t.buffer = 4096, stack_t.capacity = 256, stack_t.offset = 0\<rparr>
              (\<lambda>_. 0) [(64, 8), (100, 16), (8, 8)]
           = Some ([(4104, 64), (4176, 100), (4288, 8)],
                   \<lparr>stack_t.buffer = 4096, stack_t.capacity = 256, stack_t.offset = 200\<rparr>,
                   (\<lambda>_. 0)(4096 := 0, 4168 := 72, 4280 := 180))"
    by (simp add: stack_valid_def stack_alloc_aligned_def NULL_def STACK_MIN_ALIGNMENT_def
        STACK_HEADER_SIZE_def stack__is_power_of_two_def stack__get_header_def Let_def)
  define P where "P = \<lparr>pool_t.buffer = 4096, buffer_end = 4160, pool_t.free_list = 4096,
              pool_t.slot_size = 16, pool_t.slot_count = 4, pool_t.free_count = 4\<rparr>"
  define M :: mem where "M = (\<lambda>_. 0)(4144 := 0, 4128 := 4144, 4112 := 4128, 4096 := 4112)"
  have p: "valid_buffer 4096 64
         \<and> pool_init pool_zero (\<lambda>_. 0) 4096 64 16 = Some (POOL_OK, P, M)
         \<and> frees_live (P, M, {}) [Alloc, Alloc, Free 4096]
         \<and> pool_run (P, M, {}) [Alloc, Alloc, Free 4096]
             = (P\<lparr>pool_t.free_list := 4096, pool_t.free_count := 3\<rparr>, M(4096 := 4128), {4112})
         \<and> pool_allocs (P\<lparr>pool_t.free_list := 4096, pool_t.free_count := 3\<rparr>)
              (M(4096 := 4128)) 4
             = ([4096, 4128, 4144, NULL], P\<lparr>pool_t.free_list := 0, pool_t.free_count := 0\<rparr>)"
    unfolding P_def M_def
    by (simp add: valid_buffer_def pool_init_def pool_zero_def NULL_def POOL_ALIGN_def
        SIZEOF_PTR_def pool__align_up_def pool__align_ptr_def pool__build_free_list_def
        pool__slot_ptr_def Let_def pool__build_free_list_loop_numeral
        pool__build_free_list_loop_1 pool_alloc_def pool_free_def pool_owns_def
        pool_allocs_numeral pool_allocs_1 insert_Diff_if)
  have ss: "pool_t.slot_size (P\<lparr>pool_t.free_list := 4096, pool_t.free_count := 3\<rparr>) = 16"
    by (simp add: P_def)
  from allocations_do_not_overlap [THEN conjunct1, rule_format, OF a]
    allocations_do_not_overlap [THEN conjunct2, THEN conjunct1, rule_format, OF s]
    allocations_do_not_overlap [THEN conjunct2, THEN conjunct2, rule_format, OF p]
  show ?thesis
    unfolding ss by simp
qed

section \<open>What \<^verbatim>\<open>pool_owns\<close> decides\<close>

text \<open>
  C5, as amended. After a successful \<^verbatim>\<open>pool_init\<close> on a valid buffer and any sequence of
  \<^verbatim>\<open>pool_alloc\<close> and \<^verbatim>\<open>pool_free\<close> calls, \<^verbatim>\<open>pool_owns(pool, p)\<close> holds exactly when \<open>p\<close>
  is the address of one of the pool's slots, allocated or free; the calls never change
  what it answers. So it holds for every pointer returned by \<^verbatim>\<open>pool_alloc\<close> and not yet
  freed, and goes on holding once the pointer is freed.
\<close>

theorem pool_owns_exactly_slots:
  assumes "valid_buffer buf sz"
    and "pool_init pool0 m0 buf sz slot_sz = Some (POOL_OK, pool, m)"
    and "pool_run (pool, m, {}) calls = (pool', m', live)"
  shows "(\<forall>p. pool_owns pool' p \<longleftrightarrow> p \<in> pool_slots pool')
       \<and> pool_owns pool' = pool_owns pool
       \<and> (\<forall>p \<in> live. pool_owns pool' p)"
proof -
  have "pool_links pool m {}"
    using assms(1,2) by (rule pool_init_inv(2))
  from pool_run_links [OF this assms(3)]
  have l: "pool_links pool' m' live" and o: "pool_owns pool' = pool_owns pool"
    by simp_all
  then have g: "pool_geometry pool'" and lv: "live \<subseteq> pool_slots pool'"
    by (simp_all add: pool_links_def)
  show ?thesis
    using pool_owns_iff_slot [OF g] o lv by auto
qed

theorem pool_owns_exactly_slots_witness:
  "pool_owns \<lparr>pool_t.buffer = 4096, buffer_end = 4160, pool_t.free_list = 4096,
              pool_t.slot_size = 16, pool_t.slot_count = 4, pool_t.free_count = 3\<rparr> 4112
   \<and> pool_owns \<lparr>pool_t.buffer = 4096, buffer_end = 4160, pool_t.free_list = 4096,
                 pool_t.slot_size = 16, pool_t.slot_count = 4, pool_t.free_count = 3\<rparr>
       = pool_owns \<lparr>pool_t.buffer = 4096, buffer_end = 4160, pool_t.free_list = 4096,
                    pool_t.slot_size = 16, pool_t.slot_count = 4, pool_t.free_count = 4\<rparr>"
proof -
  define P where "P = \<lparr>pool_t.buffer = 4096, buffer_end = 4160, pool_t.free_list = 4096,
              pool_t.slot_size = 16, pool_t.slot_count = 4, pool_t.free_count = 4\<rparr>"
  define M :: mem where "M = (\<lambda>_. 0)(4144 := 0, 4128 := 4144, 4112 := 4128, 4096 := 4112)"
  have v: "valid_buffer 4096 64"
    by (simp add: valid_buffer_def NULL_def)
  have i: "pool_init pool_zero (\<lambda>_. 0) 4096 64 16 = Some (POOL_OK, P, M)"
    unfolding P_def M_def
    by (simp add: pool_init_def pool_zero_def NULL_def POOL_ALIGN_def
        SIZEOF_PTR_def pool__align_up_def pool__align_ptr_def pool__build_free_list_def
        pool__slot_ptr_def Let_def pool__build_free_list_loop_numeral
        pool__build_free_list_loop_1)
  have r: "pool_run (P, M, {}) [Alloc, Alloc, Free 4096]
             = (P\<lparr>pool_t.free_list := 4096, pool_t.free_count := 3\<rparr>, M(4096 := 4128), {4112})"
    unfolding P_def M_def
    by (simp add: NULL_def Let_def pool_alloc_def pool_free_def pool_owns_def insert_Diff_if)
  from pool_owns_exactly_slots [OF v i r]
  have "pool_owns (P\<lparr>pool_t.free_list := 4096, pool_t.free_count := 3\<rparr>) = pool_owns P"
    and "pool_owns (P\<lparr>pool_t.free_list := 4096, pool_t.free_count := 3\<rparr>) 4112"
    by blast+
  then show ?thesis
    unfolding P_def by simp
qed

text \<open>
  C5 as stated fails: right after \<^verbatim>\<open>pool_init\<close>, and again after one \<^verbatim>\<open>pool_alloc\<close> whose
  result is freed, no pointer is live, yet \<^verbatim>\<open>pool_owns\<close> holds for the slot that was
  allocated and freed and for a slot that was never allocated.
\<close>

theorem pool_owns_counterexample:
  "pool_init pool_zero (\<lambda>_. 0) 4096 64 16
     = Some (POOL_OK,
             \<lparr>pool_t.buffer = 4096, buffer_end = 4160, pool_t.free_list = 4096,
              pool_t.slot_size = 16, pool_t.slot_count = 4, pool_t.free_count = 4\<rparr>,
             (\<lambda>_. 0)(4144 := 0, 4128 := 4144, 4112 := 4128, 4096 := 4112))
   \<and> pool_run (\<lparr>pool_t.buffer = 4096, buffer_end = 4160, pool_t.free_list = 4096,
                 pool_t.slot_size = 16, pool_t.slot_count = 4, pool_t.free_count = 4\<rparr>,
                (\<lambda>_. 0)(4144 := 0, 4128 := 4144, 4112 := 4128, 4096 := 4112), {})
        [Alloc, Free 4096]
     = (\<lparr>pool_t.buffer = 4096, buffer_end = 4160, pool_t.free_list = 4096,
         pool_t.slot_size = 16, pool_t.slot_count = 4, pool_t.free_count = 4\<rparr>,
        (\<lambda>_. 0)(4144 := 0, 4128 := 4144, 4112 := 4128, 4096 := 4112), {})
   \<and> pool_owns \<lparr>pool_t.buffer = 4096, buffer_end = 4160, pool_t.free_list = 4096,
                 pool_t.slot_size = 16, pool_t.slot_count = 4, pool_t.free_count = 4\<rparr> 4096
   \<and> pool_owns \<lparr>pool_t.buffer = 4096, buffer_end = 4160, pool_t.free_list = 4096,
                 pool_t.slot_size = 16, pool_t.slot_count = 4, pool_t.free_count = 4\<rparr> 4112"
  by (simp add: pool_init_def pool_zero_def NULL_def POOL_ALIGN_def
      SIZEOF_PTR_def pool__align_up_def pool__align_ptr_def pool__build_free_list_def
      pool__slot_ptr_def Let_def pool__build_free_list_loop_numeral
      pool__build_free_list_loop_1 pool_alloc_def pool_free_def pool_owns_def)

section \<open>The insertion sort of \<^verbatim>\<open>slab_init\<close>\<close>

text \<open>
  The inner loop started at \<open>j\<close> with the key taken out of position \<open>j\<close>: afterwards the
  key stored at the final index sits after the first \<open>j'\<close> entries, in front of the
  entries above the key that were moved up.
\<close>

lemma slab__sort_shift_spec:
  assumes "j < length arr" and "slab__sort_shift arr key j = (arr', j')"
  shows "j' \<le> j
       \<and> arr'[j' := key] = take j' arr @ key # drop j' (take j arr) @ drop (Suc j) arr
       \<and> (\<forall>x \<in> set (drop j' (take j arr)). key < x)
       \<and> (0 < j' \<longrightarrow> arr ! (j' - 1) \<le> key)"
  using assms
proof (induction j arbitrary: arr arr' j')
  case 0
  then have "arr' = arr" "j' = 0" by simp_all
  moreover have "arr[0 := key] = key # drop (Suc 0) arr"
    using 0(1) by (cases arr) simp_all
  ultimately show ?case by simp
next
  case (Suc j)
  show ?case
  proof (cases "arr ! j > key")
    case True
    define arr1 where "arr1 = arr[Suc j := arr ! j]"
    have s: "slab__sort_shift arr1 key j = (arr', j')"
      using Suc.prems(2) True by (simp add: arr1_def)
    have l: "j < length arr1" using Suc.prems(1) by (simp add: arr1_def)
    from Suc.IH [OF l s]
    have le: "j' \<le> j"
      and eq: "arr'[j' := key] = take j' arr1 @ key # drop j' (take j arr1) @ drop (Suc j) arr1"
      and gt: "\<forall>x \<in> set (drop j' (take j arr1)). key < x"
      and lo: "0 < j' \<longrightarrow> arr1 ! (j' - 1) \<le> key"
      by simp_all
    have t: "take j arr1 = take j arr" by (simp add: arr1_def)
    have t': "take j' arr1 = take j' arr" using le by (simp add: arr1_def)
    have "arr1 = take (Suc j) arr @ arr ! j # drop (Suc (Suc j)) arr"
      using Suc.prems(1) unfolding arr1_def by (rule upd_conv_take_nth_drop)
    moreover have "length (take (Suc j) arr) = Suc j"
      using Suc.prems(1) by simp
    ultimately have d: "drop (Suc j) arr1 = arr ! j # drop (Suc (Suc j)) arr"
      by (metis append_eq_conv_conj)
    have ts: "take (Suc j) arr = take j arr @ [arr ! j]"
      using Suc.prems(1) by (simp add: take_Suc_conv_app_nth)
    have dj: "drop j' (take (Suc j) arr) = drop j' (take j arr) @ [arr ! j]"
      using le Suc.prems(1) by (simp add: ts)
    have n: "0 < j' \<longrightarrow> arr1 ! (j' - 1) = arr ! (j' - 1)"
      using le by (simp add: arr1_def)
    have lo': "0 < j' \<longrightarrow> arr ! (j' - 1) \<le> key"
      using lo n by auto
    have le': "j' \<le> Suc j" using le by simp
    have eq': "arr'[j' := key]
        = take j' arr @ key # drop j' (take (Suc j) arr) @ drop (Suc (Suc j)) arr"
      using eq by (simp add: t t' d dj)
    have gt': "\<forall>x \<in> set (drop j' (take (Suc j) arr)). key < x"
      using gt True by (simp add: t dj)
    from le' eq' gt' lo' show ?thesis by blast
  next
    case False
    then have r: "arr' = arr" "j' = Suc j" using Suc.prems(2) by simp_all
    have "arr[Suc j := key] = take (Suc j) arr @ key # drop (Suc (Suc j)) arr"
      using Suc.prems(1) by (simp add: upd_conv_take_nth_drop)
    with False show ?thesis by (simp add: r not_less)
  qed
qed

lemma slab__sort_step_spec:
  assumes i: "i < length arr"
  shows "\<exists>j'\<le>i. slab__sort_step i arr
            = take j' arr @ arr ! i # drop j' (take i arr) @ drop (Suc i) arr
          \<and> (\<forall>x \<in> set (drop j' (take i arr)). arr ! i < x)
          \<and> (0 < j' \<longrightarrow> arr ! (j' - 1) \<le> arr ! i)"
proof -
  obtain arr' j' where s: "slab__sort_shift arr (arr ! i) i = (arr', j')"
    by (cases "slab__sort_shift arr (arr ! i) i")
  from slab__sort_shift_spec [OF i s] s show ?thesis
    by (auto simp add: slab__sort_step_def Let_def)
qed

lemma slab__sort_step_mset:
  assumes i: "i < length arr"
  shows "mset (slab__sort_step i arr) = mset arr"
    and "length (slab__sort_step i arr) = length arr"
proof -
  from slab__sort_step_spec [OF i] obtain j' where j: "j' \<le> i"
    and e: "slab__sort_step i arr
              = take j' arr @ arr ! i # drop j' (take i arr) @ drop (Suc i) arr"
    by blast
  have 1: "take j' arr @ drop j' (take i arr) = take i arr"
    using j by (metis append_take_drop_id min.absorb1 take_take)
  have "mset (slab__sort_step i arr)
          = mset (take j' arr @ drop j' (take i arr)) + {#arr ! i#} + mset (drop (Suc i) arr)"
    by (simp add: e)
  also have "\<dots> = mset (take i arr @ arr ! i # drop (Suc i) arr)"
    by (simp add: 1)
  also have "\<dots> = mset arr"
    using i by (simp only: id_take_nth_drop [symmetric])
  finally show "mset (slab__sort_step i arr) = mset arr" .
  then show "length (slab__sort_step i arr) = length arr"
    by (metis size_mset)
qed

lemma slab__sort_step_sorted:
  assumes i: "i < length arr" and s: "sorted (take i arr)"
  shows "sorted (take (Suc i) (slab__sort_step i arr))"
proof -
  from slab__sort_step_spec [OF i] obtain j' where j: "j' \<le> i"
    and e: "slab__sort_step i arr
              = take j' arr @ arr ! i # drop j' (take i arr) @ drop (Suc i) arr"
    and gt: "\<forall>x \<in> set (drop j' (take i arr)). arr ! i < x"
    and lo: "0 < j' \<longrightarrow> arr ! (j' - 1) \<le> arr ! i"
    by blast
  define pre where "pre = take i arr"
  have lp: "length pre = i" using i by (simp add: pre_def)
  have tj: "take j' arr = take j' pre" using j by (simp add: pre_def min_def)
  define A where "A = take j' pre @ arr ! i # drop j' pre"
  have "length A = Suc i"
    using j lp by (simp add: A_def)
  moreover have "slab__sort_step i arr = A @ drop (Suc i) arr"
    unfolding e tj pre_def [symmetric] A_def by simp
  ultimately have t: "take (Suc i) (slab__sort_step i arr) = take j' pre @ arr ! i # drop j' pre"
    unfolding A_def [symmetric] by simp
  have sp: "sorted pre" using s by (simp add: pre_def)
  have s1: "sorted (take j' pre)" using sp by (rule sorted_wrt_take)
  have s2: "sorted (drop j' pre)" using sp by (rule sorted_wrt_drop)
  have le: "\<forall>x \<in> set (take j' pre). x \<le> arr ! i"
  proof
    fix x assume "x \<in> set (take j' pre)"
    then obtain n where n: "n < j'" "x = pre ! n"
      using j lp by (auto simp add: in_set_conv_nth)
    then have "0 < j'" by simp
    with lo have "arr ! (j' - 1) \<le> arr ! i" by simp
    moreover have "arr ! (j' - 1) = pre ! (j' - 1)"
      using j \<open>0 < j'\<close> by (simp add: pre_def)
    moreover have "pre ! n \<le> pre ! (j' - 1)"
      using s n j lp unfolding pre_def [symmetric]
      by (intro sorted_nth_mono) simp_all
    ultimately show "x \<le> arr ! i" using n by simp
  qed
  have ge: "\<forall>x \<in> set (drop j' pre). arr ! i \<le> x"
    using gt by (auto simp add: pre_def intro: less_imp_le)
  have "sorted (take j' pre @ arr ! i # drop j' pre)"
    using s1 s2 le ge by (auto simp add: sorted_append intro: order_trans)
  then show ?thesis by (simp only: t)
qed

lemma slab__sort_fold:
  assumes "a \<le> b" and "b \<le> length arr" and "sorted (take a arr)"
  shows "sorted (take b (fold slab__sort_step [a..<b] arr))
       \<and> mset (fold slab__sort_step [a..<b] arr) = mset arr
       \<and> length (fold slab__sort_step [a..<b] arr) = length arr"
  using assms
proof (induction "b - a" arbitrary: a arr)
  case 0
  then show ?case by simp
next
  case (Suc d)
  have ab: "a < b" using Suc.hyps(2) by simp
  then have u: "[a..<b] = a # [Suc a..<b]" by (simp add: upt_rec)
  have al: "a < length arr" using ab Suc.prems(2) by simp
  define arr1 where "arr1 = slab__sort_step a arr"
  have m: "mset arr1 = mset arr" and l: "length arr1 = length arr"
    unfolding arr1_def using slab__sort_step_mset [OF al] by simp_all
  have s: "sorted (take (Suc a) arr1)"
    unfolding arr1_def using al Suc.prems(3) by (rule slab__sort_step_sorted)
  have "d = b - Suc a" using Suc.hyps(2) by simp
  from Suc.hyps(1) [OF this, of arr1] ab Suc.prems(2) s l m
  show ?case
    by (simp add: u arr1_def)
qed

lemma slab__sort_sizes_sorted:
  assumes "cnt = length arr"
  shows "sorted (slab__sort_sizes arr cnt)"
    and "mset (slab__sort_sizes arr cnt) = mset arr"
    and "length (slab__sort_sizes arr cnt) = cnt"
proof -
  show "mset (slab__sort_sizes arr cnt) = mset arr"
    and "length (slab__sort_sizes arr cnt) = cnt"
    and "sorted (slab__sort_sizes arr cnt)"
  proof -
    consider "cnt = 0" | "1 \<le> cnt" by linarith
    then have "sorted (take cnt (slab__sort_sizes arr cnt))
       \<and> mset (slab__sort_sizes arr cnt) = mset arr
       \<and> length (slab__sort_sizes arr cnt) = length arr"
    proof cases
      case 1
      with assms show ?thesis by (simp add: slab__sort_sizes_def)
    next
      case 2
      have "sorted (take 1 arr)" by (cases arr) simp_all
      with 2 assms have "sorted (take cnt (fold slab__sort_step [1..<cnt] arr))
           \<and> mset (fold slab__sort_step [1..<cnt] arr) = mset arr
           \<and> length (fold slab__sort_step [1..<cnt] arr) = length arr"
        by (intro slab__sort_fold) simp_all
      then show ?thesis
        unfolding slab__sort_sizes_def .
    qed
    then have r: "sorted (take cnt (slab__sort_sizes arr cnt))"
      "mset (slab__sort_sizes arr cnt) = mset arr"
      "length (slab__sort_sizes arr cnt) = cnt"
      using assms by blast+
    have "take cnt (slab__sort_sizes arr cnt) = slab__sort_sizes arr cnt"
      using r(3) by simp
    with r(1) have "sorted (slab__sort_sizes arr cnt)" by simp
    with r show "mset (slab__sort_sizes arr cnt) = mset arr"
      and "length (slab__sort_sizes arr cnt) = cnt"
      and "sorted (slab__sort_sizes arr cnt)"
      by simp_all
  qed
qed

lemma sorted_adjacent_equal:
  fixes xs :: "'a :: linorder list"
  assumes "sorted xs" and "\<not> distinct xs"
  shows "\<exists>i. 1 \<le> i \<and> i < length xs \<and> xs ! i = xs ! (i - 1)"
  using assms
proof (induction xs)
  case Nil
  then show ?case by simp
next
  case (Cons x xs)
  show ?case
  proof (cases "x \<in> set xs")
    case True
    then obtain y ys where xs: "xs = y # ys" by (cases xs) auto
    have "x \<le> y" using Cons.prems(1) xs by simp
    moreover have "y \<le> x" using Cons.prems(1) True xs by auto
    ultimately have "(x # xs) ! 1 = (x # xs) ! (1 - 1)" by (simp add: xs)
    then show ?thesis by (intro exI [of _ 1]) (simp add: xs)
  next
    case False
    then have "\<not> distinct xs" using Cons.prems(2) by simp
    moreover have "sorted xs" using Cons.prems(1) by simp
    ultimately obtain i where "1 \<le> i" "i < length xs" "xs ! i = xs ! (i - 1)"
      using Cons.IH by blast
    then show ?thesis
      by (intro exI [of _ "Suc i"]) (cases i; simp)
  qed
qed

lemma slab__sort_shift_numeral:
  "slab__sort_shift arr key (numeral k) =
     (if arr ! pred_numeral k > key
      then slab__sort_shift (arr[numeral k := arr ! pred_numeral k]) key (pred_numeral k)
      else (arr, numeral k))"
  by (simp add: numeral_eq_Suc)

lemma slab__sort_shift_1:
  "slab__sort_shift arr key 1 = (if arr ! 0 > key then (arr[1 := arr ! 0], 0) else (arr, 1))"
  by simp

lemma slab__build_free_list_loop_numeral:
  "slab__build_free_list_loop cls (numeral k) prev m =
     (let slot = region_start cls + of_nat (pred_numeral k) * slab_class_t.slot_size cls
      in slab__build_free_list_loop cls (pred_numeral k) slot (m(slot := prev)))"
  by (simp add: numeral_eq_Suc)

lemma slab__build_free_list_loop_1:
  "slab__build_free_list_loop cls 1 prev m = (region_start cls, m(region_start cls := prev))"
  by (simp add: Let_def)

lemmas slab_eval =
  slab_init_def SLAB_MAX_CLASSES_def SLAB_MAGIC_def slab_zero_def slab_class_zero_def NULL_def
  SLAB_ERR_INVALID_SIZE_def SLAB_OK_def SLAB_ALIGN_UP_def SLAB_ALIGNMENT_def SLAB_MAX_def
  SLAB_MIN_SLOT_SIZE_def SIZEOF_PTR_def slab__sort_sizes_def slab__sort_step_def
  slab__build_free_list_def slab__sort_shift_numeral slab__sort_shift_1
  slab__build_free_list_loop_numeral slab__build_free_list_loop_1 Let_def

section \<open>Equal size classes\<close>

text \<open>
  The duplicate check of \<^verbatim>\<open>slab_init\<close> compares the sorted sizes as they were given. When
  two of the \<open>count\<close> entries of \<^verbatim>\<open>sizes[]\<close> are equal before any rounding, a call with
  otherwise acceptable arguments on a descriptor that is not already initialized returns
  \<^verbatim>\<open>SLAB_ERR_INVALID_SIZE\<close> and leaves the descriptor and the store as they were.
\<close>

lemma slab_init_rejects_repeated_sizes:
  assumes "buf \<noteq> NULL" and "sz \<noteq> 0" and "cnt \<noteq> 0" and "cnt \<le> SLAB_MAX_CLASSES"
    and "slab_t.initialized slab \<noteq> SLAB_MAGIC"
    and len: "unat cnt \<le> length sizes"
    and dup: "\<not> distinct (take (unat cnt) sizes)"
  shows "slab_init slab m buf sz sizes cnt = (SLAB_ERR_INVALID_SIZE, slab, m)"
proof (cases "\<exists>i \<in> set [0..<unat cnt]. sizes ! i = 0")
  case True
  with assms(1-5) show ?thesis
    by (simp add: slab_init_def not_less [symmetric])
next
  case False
  define arr where "arr = take (unat cnt) sizes"
  define sorted_sizes where "sorted_sizes = slab__sort_sizes arr (unat cnt)"
  have l: "unat cnt = length arr" using len by (simp add: arr_def)
  note s = slab__sort_sizes_sorted [OF l]
  have "\<not> distinct sorted_sizes"
    using s(2) dup unfolding sorted_sizes_def arr_def [symmetric]
    by (metis mset_eq_imp_distinct_iff)
  with s(1) obtain i where "1 \<le> i" "i < length sorted_sizes"
    "sorted_sizes ! i = sorted_sizes ! (i - 1)"
    unfolding sorted_sizes_def [symmetric] using sorted_adjacent_equal by blast
  then have "\<exists>i \<in> set [1..<unat cnt]. sorted_sizes ! i = sorted_sizes ! (i - 1)"
    using s(3) by (auto simp add: sorted_sizes_def)
  with False assms(1-5) show ?thesis
    by (simp add: slab_init_def Let_def not_less [symmetric] sorted_sizes_def arr_def)
qed

lemma slab_init_rejects_repeated_sizes_witness:
  "slab_init slab_zero (\<lambda>_. 0) 4096 4096 [32, 64, 64, 128] 4
     = (SLAB_ERR_INVALID_SIZE, slab_zero, \<lambda>_. 0)
   \<and> slab_t.initialized slab_zero \<noteq> SLAB_MAGIC"
proof -
  have h: "(4096 :: 64 word) \<noteq> NULL" "(4096 :: 64 word) \<noteq> 0" "(4 :: 64 word) \<noteq> 0"
    "(4 :: 64 word) \<le> SLAB_MAX_CLASSES" "slab_t.initialized slab_zero \<noteq> SLAB_MAGIC"
    "unat (4 :: 64 word) \<le> length [32, 64, 64, 128 :: 64 word]"
    "\<not> distinct (take (unat (4 :: 64 word)) [32, 64, 64, 128 :: 64 word])"
    by (simp_all add: NULL_def SLAB_MAX_CLASSES_def slab_zero_def SLAB_MAGIC_def)
  from slab_init_rejects_repeated_sizes [OF h] h(5) show ?thesis by simp
qed

text \<open>
  C6 at a failing input. The sizes 1 and 2 differ as given, so they pass the duplicate
  check, and both round up to 8 afterwards: \<^verbatim>\<open>slab_init\<close> on a zeroed descriptor returns
  \<^verbatim>\<open>SLAB_OK\<close>, marks the slab initialized and makes two classes of slot size 8, where an
  invalid-size error and an uninitialized slab were due.
\<close>

theorem slab_init_accepts_equal_after_rounding:
  "SLAB_ALIGN_UP 1 SLAB_ALIGNMENT = SLAB_ALIGN_UP 2 SLAB_ALIGNMENT
   \<and> slab_init slab_zero (\<lambda>_. 0) 4096 32 [1, 2] 2
     = (SLAB_OK,
        \<lparr>slab_t.buffer = 4096, aligned_start = 4096, slab_t.capacity = 32,
         slab_t.usable_capacity = 32,
         classes =
           [\<lparr>slab_class_t.slot_size = 8, slab_class_t.free_list = 4096, region_start = 4096,
             region_end = 4112, slab_class_t.slot_count = 2, slab_class_t.free_count = 2\<rparr>,
            \<lparr>slab_class_t.slot_size = 8, slab_class_t.free_list = 4112, region_start = 4112,
             region_end = 4128, slab_class_t.slot_count = 2, slab_class_t.free_count = 2\<rparr>]
           @ replicate 14 slab_class_zero,
         slab_t.class_count = 2, slab_t.initialized = SLAB_MAGIC\<rparr>,
        (\<lambda>_. 0)(4104 := 0, 4096 := 4104, 4120 := 0, 4112 := 4120))"
  by (simp add: slab_eval upt_rec [of 0] upt_rec [of "Suc 0"] del: set_upt)


section \<open>A size class whose rounding wraps around\<close>

text \<open>
  C4 at a failing input. \<^verbatim>\<open>SLAB_ALIGN_UP\<close> of the size \<^verbatim>\<open>SIZE_MAX\<close> wraps to 0, which
  \<^verbatim>\<open>SLAB_MAX\<close> raises to 8; \<^verbatim>\<open>slab_init\<close> with the sizes 16 and \<^verbatim>\<open>SIZE_MAX\<close> therefore
  succeeds with the classes in the order 16, 8, and \<^verbatim>\<open>slab_max_alloc\<close> is 8. Then
  \<^verbatim>\<open>slab_alloc(slab, 5)\<close> takes the first class that is large enough, the one of 16, and
  the usable size of its result is 16, although the smallest class slot size that is at
  least 5 is 8.
\<close>

theorem slab_alloc_not_smallest_class:
  "slab_init slab_zero (\<lambda>_. 0) 4096 64 [16, 18446744073709551615] 2
     = (SLAB_OK,
        \<lparr>slab_t.buffer = 4096, aligned_start = 4096, slab_t.capacity = 64,
         slab_t.usable_capacity = 64,
         classes =
           [\<lparr>slab_class_t.slot_size = 16, slab_class_t.free_list = 4096, region_start = 4096,
             region_end = 4128, slab_class_t.slot_count = 2, slab_class_t.free_count = 2\<rparr>,
            \<lparr>slab_class_t.slot_size = 8, slab_class_t.free_list = 4128, region_start = 4128,
             region_end = 4160, slab_class_t.slot_count = 4, slab_class_t.free_count = 4\<rparr>]
           @ replicate 14 slab_class_zero,
         slab_t.class_count = 2, slab_t.initialized = SLAB_MAGIC\<rparr>,
        (\<lambda>_. 0)(4112 := 0, 4096 := 4112, 4152 := 0, 4144 := 4152, 4136 := 4144,
                4128 := 4136))
   \<and> slab_max_alloc
        \<lparr>slab_t.buffer = 4096, aligned_start = 4096, slab_t.capacity = 64,
         slab_t.usable_capacity = 64,
         classes =
           [\<lparr>slab_class_t.slot_size = 16, slab_class_t.free_list = 4096, region_start = 4096,
             region_end = 4128, slab_class_t.slot_count = 2, slab_class_t.free_count = 2\<rparr>,
            \<lparr>slab_class_t.slot_size = 8, slab_class_t.free_list = 4128, region_start = 4128,
             region_end = 4160, slab_class_t.slot_count = 4, slab_class_t.free_count = 4\<rparr>]
           @ replicate 14 slab_class_zero,
         slab_t.class_count = 2, slab_t.initialized = SLAB_MAGIC\<rparr> = 8
   \<and> slab_alloc
        \<lparr>slab_t.buffer = 4096, aligned_start = 4096, slab_t.capacity = 64,
         slab_t.usable_capacity = 64,
         classes =
           [\<lparr>slab_class_t.slot_size = 16, slab_class_t.free_list = 4096, region_start = 4096,
             region_end = 4128, slab_class_t.slot_count = 2, slab_class_t.free_count = 2\<rparr>,
            \<lparr>slab_class_t.slot_size = 8, slab_class_t.free_list = 4128, region_start = 4128,
             region_end = 4160, slab_class_t.slot_count = 4, slab_class_t.free_count = 4\<rparr>]
           @ replicate 14 slab_class_zero,
         slab_t.class_count = 2, slab_t.initialized = SLAB_MAGIC\<rparr>
        ((\<lambda>_. 0)(4112 := 0, 4096 := 4112, 4152 := 0, 4144 := 4152, 4136 := 4144,
                 4128 := 4136)) 5
     = (4096,
        \<lparr>slab_t.buffer = 4096, aligned_start = 4096, slab_t.capacity = 64,
         slab_t.usable_capacity = 64,
         classes =
           [\<lparr>slab_class_t.slot_size = 16, slab_class_t.free_list = 4112, region_start = 4096,
             region_end = 4128, slab_class_t.slot_count = 2, slab_class_t.free_count = 1\<rparr>,
            \<lparr>slab_class_t.slot_size = 8, slab_class_t.free_list = 4128, region_start = 4128,
             region_end = 4160, slab_class_t.slot_count = 4, slab_class_t.free_count = 4\<rparr>]
           @ replicate 14 slab_class_zero,
         slab_t.class_count = 2, slab_t.initialized = SLAB_MAGIC\<rparr>)
   \<and> slab_usable_size
        \<lparr>slab_t.buffer = 4096, aligned_start = 4096, slab_t.capacity = 64,
         slab_t.usable_capacity = 64,
         classes =
           [\<lparr>slab_class_t.slot_size = 16, slab_class_t.free_list = 4112, region_start = 4096,
             region_end = 4128, slab_class_t.slot_count = 2, slab_class_t.free_count = 1\<rparr>,
            \<lparr>slab_class_t.slot_size = 8, slab_class_t.free_list = 4128, region_start = 4128,
             region_end = 4160, slab_class_t.slot_count = 4, slab_class_t.free_count = 4\<rparr>]
           @ replicate 14 slab_class_zero,
         slab_t.class_count = 2, slab_t.initialized = SLAB_MAGIC\<rparr> 4096 = 16"
  by (simp add: slab_eval slab_max_alloc_def slab_alloc_def slab_usable_size_def
      slab__find_class_for_size_def slab__find_class_for_ptr_def SLAB_NO_CLASS_def
      upt_rec [of 0] upt_rec [of "Suc 0"] del: set_upt)

theorem slab_alloc_not_smallest_class_witness:
  "slab_usable_size
        \<lparr>slab_t.buffer = 4096, aligned_start = 4096, slab_t.capacity = 64,
         slab_t.usable_capacity = 64,
         classes =
           [\<lparr>slab_class_t.slot_size = 16, slab_class_t.free_list = 4112, region_start = 4096,
             region_end = 4128, slab_class_t.slot_count = 2, slab_class_t.free_count = 1\<rparr>,
            \<lparr>slab_class_t.slot_size = 8, slab_class_t.free_list = 4128, region_start = 4128,
             region_end = 4160, slab_class_t.slot_count = 4, slab_class_t.free_count = 4\<rparr>]
           @ replicate 14 slab_class_zero,
         slab_t.class_count = 2, slab_t.initialized = SLAB_MAGIC\<rparr> 4096 = 16
   \<and> slab_class_t.slot_size
        ([\<lparr>slab_class_t.slot_size = 16, slab_class_t.free_list = 4112, region_start = 4096,
           region_end = 4128, slab_class_t.slot_count = 2, slab_class_t.free_count = 1\<rparr>,
          \<lparr>slab_class_t.slot_size = 8, slab_class_t.free_list = 4128, region_start = 4128,
           region_end = 4160, slab_class_t.slot_count = 4, slab_class_t.free_count = 4\<rparr>] ! 1)
       = 8
   \<and> (5 :: 64 word) \<le> 8 \<and> (8 :: 64 word) < 16"
  using slab_alloc_not_smallest_class by simp

end
